theory Spec2Isabelle
  imports Complex_Main "HOL-Library.Sublist" "HOL-Library.AList"
begin

section \<open>Numbers and time ranges\<close>

text \<open>
  The repository holds two variants of the same server: \<^verbatim>\<open>server.js\<close> (a job queue with
  a status page) and \<^verbatim>\<open>server (2).js\<close> (one synchronous request per batch). Both define
  \<^verbatim>\<open>buildKeepSegments\<close> and \<^verbatim>\<open>getDuration\<close>; the planners, detectors and probes below
  carry the suffix \<open>1\<close> for \<^verbatim>\<open>server.js\<close> and \<open>2\<close> for \<^verbatim>\<open>server (2).js\<close>.

  A JavaScript number is modelled by \<open>jsnum\<close>: a rational (the finite doubles, with
  exact instead of rounded arithmetic, so without overflow), \<open>NaN\<close> or an infinity.
  The segment arithmetic is stated over the finite numbers, that is over \<open>rat\<close>.
\<close>

datatype jsnum = NaN | Num rat | PosInf | NegInf

text \<open>A JavaScript object \<^verbatim>\<open>{start, end}\<close>: a keep segment, or a closed silence. The
  field \<^verbatim>\<open>end\<close> is called \<open>stop\<close> here.\<close>

record 'n span =
  start :: 'n
  stop :: 'n

text \<open>The silence objects of \<^verbatim>\<open>server (2).js\<close>, whose \<^verbatim>\<open>end\<close> (here \<open>s_stop\<close>) may be
  \<^verbatim>\<open>null\<close>.\<close>

record 'n silence =
  s_start :: 'n
  s_stop :: "'n option"

section \<open>Segment planner\<close>

subsection \<open>\<^verbatim>\<open>server (2).js\<close>: buildKeepSegments\<close>

text \<open>
  \<^verbatim>\<open>
  for (const s of silences) {
    const end = s.end ?? totalDuration;
    const cutStart = s.start + postSpeechBuffer;
    const cutEnd = end - preSpeechBuffer;
    if (cutStart - cursor >= minKeep) keep.push({ start: cursor, end: cutStart });
    cursor = Math.max(cursor, cutEnd);
  }
  if (totalDuration - cursor >= minKeep) keep.push({ start: cursor, end: totalDuration });
  \<close>
  The loop state is the pair of \<^verbatim>\<open>keep\<close> and \<^verbatim>\<open>cursor\<close>.
\<close>

fun keepLoop2 ::
  "rat \<Rightarrow> rat \<Rightarrow> rat \<Rightarrow> rat \<Rightarrow> rat silence list \<Rightarrow> rat span list \<times> rat \<Rightarrow> rat span list \<times> rat"
where
  "keepLoop2 totalDuration postSpeechBuffer preSpeechBuffer minKeep [] (keep, cursor) =
     (keep, cursor)"
| "keepLoop2 totalDuration postSpeechBuffer preSpeechBuffer minKeep (s # ss) (keep, cursor) =
     (let e = (case s_stop s of None \<Rightarrow> totalDuration | Some v \<Rightarrow> v);
          cutStart = s_start s + postSpeechBuffer;
          cutEnd = e - preSpeechBuffer;
          keep' = (if cutStart - cursor \<ge> minKeep
                   then keep @ [\<lparr>start = cursor, stop = cutStart\<rparr>] else keep)
      in keepLoop2 totalDuration postSpeechBuffer preSpeechBuffer minKeep ss
           (keep', max cursor cutEnd))"

definition buildKeepSegments2 ::
  "rat silence list \<Rightarrow> rat \<Rightarrow> rat \<Rightarrow> rat \<Rightarrow> rat \<Rightarrow> rat span list"
where
  "buildKeepSegments2 silences totalDuration postSpeechBuffer preSpeechBuffer minKeep =
     (case keepLoop2 totalDuration postSpeechBuffer preSpeechBuffer minKeep silences ([], 0) of
        (keep, cursor) \<Rightarrow>
          if totalDuration - cursor \<ge> minKeep
          then keep @ [\<lparr>start = cursor, stop = totalDuration\<rparr>] else keep)"

text \<open>The call of \<^verbatim>\<open>processSingleFile\<close> passes only \<^verbatim>\<open>silences\<close> and
  \<^verbatim>\<open>totalDuration\<close>, so the parameter defaults apply:
  \<^verbatim>\<open>postSpeechBuffer = 0.5, preSpeechBuffer = 0.5, minKeep = 0.2\<close>.\<close>

definition buildKeepSegments2_default :: "rat silence list \<Rightarrow> rat \<Rightarrow> rat span list" where
  "buildKeepSegments2_default silences totalDuration =
     buildKeepSegments2 silences totalDuration 0.5 0.5 0.2"

subsection \<open>\<^verbatim>\<open>server.js\<close>: buildKeepSegments\<close>

definition KEEP_BEFORE :: rat where "KEEP_BEFORE = 0.3"
definition KEEP_AFTER :: rat where "KEEP_AFTER = 0.3"
definition MIN_SILENCE :: rat where "MIN_SILENCE = 0.6"

text \<open>
  \<^verbatim>\<open>
  for (const s of silences) {
    const keepEnd = s.start + KEEP_BEFORE;
    const nextStart = s.end - KEEP_AFTER;
    if (keepEnd > cursor) { keeps.push({ start: cursor, end: keepEnd }); cursor = nextStart; }
  }
  if (cursor < duration) keeps.push({ start: cursor, end: duration });
  \<close>
\<close>

fun keepLoop1 :: "rat span list \<Rightarrow> rat span list \<times> rat \<Rightarrow> rat span list \<times> rat" where
  "keepLoop1 [] (keeps, cursor) = (keeps, cursor)"
| "keepLoop1 (s # ss) (keeps, cursor) =
     (let keepEnd = start s + KEEP_BEFORE;
          nextStart = stop s - KEEP_AFTER
      in if keepEnd > cursor
         then keepLoop1 ss (keeps @ [\<lparr>start = cursor, stop = keepEnd\<rparr>], nextStart)
         else keepLoop1 ss (keeps, cursor))"

definition buildKeepSegments1 :: "rat span list \<Rightarrow> rat \<Rightarrow> rat span list" where
  "buildKeepSegments1 silences duration =
     (case keepLoop1 silences ([], 0) of
        (keeps, cursor) \<Rightarrow>
          if cursor < duration then keeps @ [\<lparr>start = cursor, stop = duration\<rparr>] else keeps)"

subsection \<open>Properties of a segment sequence\<close>



subsection \<open>Inputs the detectors can deliver\<close>





section \<open>Strings and number parsing\<close>

text \<open>
  A string is a list of characters. The three string methods the detectors use:
  \<^verbatim>\<open>s.includes(sub)\<close>, \<^verbatim>\<open>s.split(sep)\<close> for a non-empty separator, and indexing the
  result of a split, which gives \<^verbatim>\<open>undefined\<close> (here \<open>None\<close>) beyond its length.
\<close>

fun js_includes :: "string \<Rightarrow> string \<Rightarrow> bool" where
  "js_includes [] sub = (sub = [])"
| "js_includes (c # cs) sub = (prefix sub (c # cs) \<or> js_includes cs sub)"

text \<open>\<open>split_from sep cur s\<close>: the pieces of \<open>s\<close>, the first one prepended by \<open>cur\<close>.
  The separator is searched from left to right, occurrences do not overlap.\<close>

function split_from :: "string \<Rightarrow> string \<Rightarrow> string \<Rightarrow> string list" where
  "split_from sep cur [] = [cur]"
| "split_from sep cur (c # cs) =
     (if sep \<noteq> [] \<and> prefix sep (c # cs)
      then cur # split_from sep [] (drop (length sep) (c # cs))
      else split_from sep (cur @ [c]) cs)"
  by pat_completeness auto
termination
  by (relation "measure (\<lambda>(sep, cur, s). length s)") (auto simp: neq_Nil_conv)

definition js_split :: "string \<Rightarrow> string \<Rightarrow> string list" where
  "js_split s sep = split_from sep [] s"

definition at_index :: "'a list \<Rightarrow> nat \<Rightarrow> 'a option" where
  "at_index xs i = (if i < length xs then Some (xs ! i) else None)"

text \<open>
  \<^verbatim>\<open>parseFloat\<close>: leading white space is skipped, then the longest prefix that is a
  decimal literal (sign, digits, fraction, exponent, or \<^verbatim>\<open>Infinity\<close>) is read; \<open>NaN\<close> when
  there is none. The value is the exact decimal value, where JavaScript rounds it to
  the nearest double. Characters are bytes: of the white space of JavaScript only the
  ASCII characters are recognised.
\<close>

definition is_digit :: "char \<Rightarrow> bool" where
  "is_digit c = (c \<in> set ''0123456789'')"

definition is_space :: "char \<Rightarrow> bool" where
  "is_space c = (of_char c \<in> {9, 10, 11, 12, 13, 32 :: nat})"

definition digit_val :: "char \<Rightarrow> nat" where
  "digit_val c = of_char c - 48"

definition digits_val :: "string \<Rightarrow> nat" where
  "digits_val ds = foldl (\<lambda>a c. 10 * a + digit_val c) 0 ds"

text \<open>The value of \<^verbatim>\<open>ip.fp\<close>, integer digits \<open>ip\<close> and fraction digits \<open>fp\<close>.\<close>

definition decimal_val :: "string \<Rightarrow> string \<Rightarrow> rat" where
  "decimal_val ip fp = of_nat (digits_val (ip @ fp)) / 10 ^ length fp"

text \<open>The exponent part at the head of \<open>s\<close>: \<^verbatim>\<open>e\<close> or \<^verbatim>\<open>E\<close>, an optional sign, and at
  least one digit; 0 when there is none.\<close>

definition exponent_of :: "string \<Rightarrow> int" where
  "exponent_of s =
     (case s of
        [] \<Rightarrow> 0
      | c # r \<Rightarrow>
          if c = CHR ''e'' \<or> c = CHR ''E'' then
            (case r of
               [] \<Rightarrow> 0
             | d # r' \<Rightarrow>
                 if d = CHR ''-'' then - int (digits_val (takeWhile is_digit r'))
                 else if d = CHR ''+'' then int (digits_val (takeWhile is_digit r'))
                 else int (digits_val (takeWhile is_digit r)))
          else 0)"

definition scale10 :: "rat \<Rightarrow> int \<Rightarrow> rat" where
  "scale10 m e = (if 0 \<le> e then m * 10 ^ nat e else m / 10 ^ nat (- e))"

text \<open>An unsigned literal at the head of \<open>s\<close>, as a finite value or \<^verbatim>\<open>Infinity\<close>.\<close>

definition unsigned_literal :: "string \<Rightarrow> jsnum" where
  "unsigned_literal s =
     (if prefix ''Infinity'' s then PosInf
      else
        let ip = takeWhile is_digit s;
            r1 = dropWhile is_digit s;
            fp = (case r1 of [] \<Rightarrow> [] | c # r \<Rightarrow> if c = CHR ''.'' then takeWhile is_digit r else []);
            r2 = (case r1 of [] \<Rightarrow> [] | c # r \<Rightarrow> if c = CHR ''.'' then dropWhile is_digit r else r1)
        in if ip = [] \<and> fp = [] then NaN
           else Num (scale10 (decimal_val ip fp) (exponent_of r2)))"

definition js_neg :: "jsnum \<Rightarrow> jsnum" where
  "js_neg x = (case x of NaN \<Rightarrow> NaN | Num r \<Rightarrow> Num (- r) | PosInf \<Rightarrow> NegInf | NegInf \<Rightarrow> PosInf)"

definition parseFloat_string :: "string \<Rightarrow> jsnum" where
  "parseFloat_string s =
     (case dropWhile is_space s of
        [] \<Rightarrow> NaN
      | c # r \<Rightarrow>
          if c = CHR ''-'' then js_neg (unsigned_literal r)
          else if c = CHR ''+'' then unsigned_literal r
          else unsigned_literal (c # r))"

text \<open>\<^verbatim>\<open>parseFloat\<close> of an argument that may be \<^verbatim>\<open>undefined\<close>: the argument is first
  converted to a string, and \<^verbatim>\<open>"undefined"\<close> holds no number.\<close>

definition parseFloat :: "string option \<Rightarrow> jsnum" where
  "parseFloat a = (case a of None \<Rightarrow> NaN | Some s \<Rightarrow> parseFloat_string s)"

text \<open>Subtraction and \<^verbatim>\<open>>=\<close> on numbers: \<open>NaN\<close> propagates and compares false.\<close>

definition js_sub :: "jsnum \<Rightarrow> jsnum \<Rightarrow> jsnum" where
  "js_sub x y =
     (case (x, y) of
        (Num a, Num b) \<Rightarrow> Num (a - b)
      | (Num a, PosInf) \<Rightarrow> NegInf
      | (Num a, NegInf) \<Rightarrow> PosInf
      | (PosInf, Num b) \<Rightarrow> PosInf
      | (PosInf, NegInf) \<Rightarrow> PosInf
      | (NegInf, Num b) \<Rightarrow> NegInf
      | (NegInf, PosInf) \<Rightarrow> NegInf
      | _ \<Rightarrow> NaN)"

definition js_ge :: "jsnum \<Rightarrow> jsnum \<Rightarrow> bool" where
  "js_ge x y =
     (case (x, y) of
        (Num a, Num b) \<Rightarrow> a \<ge> b
      | (PosInf, Num b) \<Rightarrow> True
      | (PosInf, PosInf) \<Rightarrow> True
      | (PosInf, NegInf) \<Rightarrow> True
      | (Num a, NegInf) \<Rightarrow> True
      | (NegInf, NegInf) \<Rightarrow> True
      | _ \<Rightarrow> False)"

section \<open>Silence detectors\<close>

text \<open>
  \<^verbatim>\<open>runFFmpeg\<close> of \<^verbatim>\<open>server.js\<close> settles when the process closes: it resolves with the
  captured diagnostic output when the exit code is 0 and rejects with it otherwise. A
  process that cannot be started emits an \<^verbatim>\<open>error\<close> event, for which neither variant
  registers a listener; that case is outside this model.
\<close>

datatype ff_result = Resolved string | Rejected string

text \<open>What a function of \<^verbatim>\<open>server.js\<close> throws: an \<^verbatim>\<open>Error\<close> object with its message, or
  the log a rejected \<^verbatim>\<open>runFFmpeg\<close> passes on.\<close>

datatype exn = Error string | RejectedLog string

definition newline :: string where
  "newline = [char_of (10::nat)]"

subsection \<open>\<^verbatim>\<open>server (2).js\<close>: detectSilence\<close>





subsection \<open>\<^verbatim>\<open>server.js\<close>: detectSilences\<close>

text \<open>
  \<^verbatim>\<open>
  log.split("\n").forEach(line => {
    if (line.includes("silence_start")) {
      start = parseFloat(line.split("silence_start:")[1]);
    }
    if (line.includes("silence_end") && start !== null) {
      const end = parseFloat(line.split("silence_end:")[1]);
      if (end - start >= MIN_SILENCE) silences.push({ start, end });
      start = null;
    }
  });
  return silences;
  \<close>
\<close>

fun silenceLoop1 ::
  "string list \<Rightarrow> jsnum span list \<times> jsnum option \<Rightarrow> jsnum span list \<times> jsnum option"
where
  "silenceLoop1 [] (silences, start0) = (silences, start0)"
| "silenceLoop1 (line # ls) (silences, start0) =
     (let start1 =
            (if js_includes line ''silence_start''
             then Some (parseFloat (at_index (js_split line ''silence_start:'') 1))
             else start0)
      in case start1 of
           Some st \<Rightarrow>
             if js_includes line ''silence_end''
             then
               (let e = parseFloat (at_index (js_split line ''silence_end:'') 1)
                in silenceLoop1 ls
                     (if js_ge (js_sub e st) (Num MIN_SILENCE)
                      then silences @ [\<lparr>start = st, stop = e\<rparr>] else silences,
                      None))
             else silenceLoop1 ls (silences, start1)
         | None \<Rightarrow> silenceLoop1 ls (silences, start1))"

text \<open>\<^verbatim>\<open>const log = await runFFmpeg([...])\<close>: a rejection is thrown on to the caller.\<close>

definition detectSilences1 :: "ff_result \<Rightarrow> exn + jsnum span list" where
  "detectSilences1 r =
     (case r of
        Rejected l \<Rightarrow> Inl (RejectedLog l)
      | Resolved l \<Rightarrow> Inr (fst (silenceLoop1 (js_split l newline) ([], None))))"

subsection \<open>A silence still open at the end of the trace\<close>



text \<open>The test \<^verbatim>\<open>end - start >= MIN_SILENCE\<close> of \<^verbatim>\<open>server.js\<close>.\<close>

definition long_enough :: "jsnum span \<Rightarrow> bool" where
  "long_enough s = js_ge (js_sub (stop s) (start s)) (Num MIN_SILENCE)"

section \<open>Duration probes\<close>

text \<open>What an \<^verbatim>\<open>async\<close> function of \<^verbatim>\<open>server.js\<close> returns where it returns a number or falls
  off its end.\<close>

datatype jsval = Undefined | Number jsnum

subsection \<open>\<^verbatim>\<open>server.js\<close>: getDuration\<close>

text \<open>
  The regular expression \<^verbatim>\<open>/Duration: (\d+):(\d+):(\d+\.\d+)/\<close> at the head of a string:
  the three groups, the third one as its integer and its fraction digits. Every
  \<^verbatim>\<open>\d+\<close> is followed by a character that is no digit, so the greedy match is the only
  one.
\<close>

definition duration_at :: "string \<Rightarrow> (string \<times> string \<times> string \<times> string) option" where
  "duration_at s =
     (if prefix ''Duration: '' s then
        let r = drop (length ''Duration: '') s;
            h = takeWhile is_digit r;
            r1 = dropWhile is_digit r;
            m = takeWhile is_digit (tl r1);
            r2 = dropWhile is_digit (tl r1);
            si = takeWhile is_digit (tl r2);
            r3 = dropWhile is_digit (tl r2);
            sf = takeWhile is_digit (tl r3)
        in if h \<noteq> [] \<and> prefix '':'' r1 \<and> m \<noteq> [] \<and> prefix '':'' r2 \<and>
              si \<noteq> [] \<and> prefix ''.'' r3 \<and> sf \<noteq> []
           then Some (h, m, si, sf) else None
      else None)"

text \<open>\<^verbatim>\<open>e.match(...)\<close>: the leftmost position at which the expression matches.\<close>

fun match_duration :: "string \<Rightarrow> (string \<times> string \<times> string \<times> string) option" where
  "match_duration [] = None"
| "match_duration (c # cs) =
     (case duration_at (c # cs) of
        Some g \<Rightarrow> Some g
      | None \<Rightarrow> match_duration cs)"

text \<open>
  \<^verbatim>\<open>
  try {
    await runFFmpeg(["-i", file]);
  } catch (e) {
    const m = e.match(/Duration: (\d+):(\d+):(\d+\.\d+)/);
    if (!m) throw new Error("Duration parse failed");
    return (+m[1] * 3600) + (+m[2] * 60) + (+m[3]);
  }
  \<close>
  \<^verbatim>\<open>ffmpeg -i file\<close> names no output file and so exits with an error after printing the
  description of the input: the duration is read from the rejection. Were the promise
  to resolve, the function would fall off its end.
\<close>

definition getDuration1 :: "ff_result \<Rightarrow> exn + jsval" where
  "getDuration1 r =
     (case r of
        Resolved l \<Rightarrow> Inr Undefined
      | Rejected e \<Rightarrow>
          (case match_duration e of
             None \<Rightarrow> Inl (Error ''Duration parse failed'')
           | Some (h, m, si, sf) \<Rightarrow>
               Inr (Number (Num (of_nat (digits_val h) * 3600 + of_nat (digits_val m) * 60 +
                                 decimal_val si sf)))))"

subsection \<open>\<^verbatim>\<open>server (2).js\<close>: getDuration\<close>


section \<open>Filter graph builders\<close>

text \<open>
  A template literal renders a number by its conversion to a string. What that gives
  for a time is not modelled: both builders take the rendering as the parameter \<open>ts\<close>,
  and every property below holds whatever it is. The index of a segment and the number
  of segments are rendered in decimal by \<open>nat_str\<close>. For the examples, \<open>time_str\<close>
  renders a time with a short decimal expansion the way JavaScript does.
\<close>

fun nat_str :: "nat \<Rightarrow> string" where
  "nat_str n =
     (if n < 10 then [char_of (48 + n)]
      else nat_str (n div 10) @ [char_of (48 + n mod 10)])"

declare nat_str.simps [simp del]





subsection \<open>\<^verbatim>\<open>server.js\<close>: buildFilterGraph\<close>

definition FADE :: rat where "FADE = 0.08"

text \<open>
  \<^verbatim>\<open>
  segs.forEach((s, i) => {
    const dur = s.end - s.start;
    const fadeOut = Math.max(0, dur - FADE);
    f.push(
      `[0:v]trim=${s.start}:${s.end},setpts=PTS-STARTPTS` +
      (i > 0 ? `,fade=t=in:st=0:d=${FADE}` : "") +
      (i < segs.length - 1 ? `,fade=t=out:st=${fadeOut}:d=${FADE}` : "") +
      `[v${i}]`
    );
    f.push(
      `[0:a]atrim=${s.start}:${s.end},asetpts=PTS-STARTPTS` +
      (i > 0 ? `,afade=t=in:st=0:d=${FADE}` : "") +
      (i < segs.length - 1 ? `,afade=t=out:st=${fadeOut}:d=${FADE}` : "") +
      `[a${i}]`
    );
    c.push(`[v${i}][a${i}]`);
  });
  f.push(`${c.join("")}concat=n=${segs.length}:v=1:a=1[outv][outa]`);
  return f.join(";");
  \<close>
  The two optional parts of a chain are named: the fade-in of segment \<open>i\<close> and the
  fade-out of segment \<open>i\<close> of \<open>n\<close>.
\<close>

definition video_fade_in :: "(rat \<Rightarrow> string) \<Rightarrow> nat \<Rightarrow> string" where
  "video_fade_in ts i = (if i > 0 then '',fade=t=in:st=0:d='' @ ts FADE else [])"

definition audio_fade_in :: "(rat \<Rightarrow> string) \<Rightarrow> nat \<Rightarrow> string" where
  "audio_fade_in ts i = (if i > 0 then '',afade=t=in:st=0:d='' @ ts FADE else [])"

definition video_fade_out :: "(rat \<Rightarrow> string) \<Rightarrow> nat \<Rightarrow> nat \<Rightarrow> rat span \<Rightarrow> string" where
  "video_fade_out ts n i s =
     (let dur = stop s - start s; fadeOut = max 0 (dur - FADE)
      in if int i < int n - 1 then '',fade=t=out:st='' @ ts fadeOut @ '':d='' @ ts FADE else [])"

definition audio_fade_out :: "(rat \<Rightarrow> string) \<Rightarrow> nat \<Rightarrow> nat \<Rightarrow> rat span \<Rightarrow> string" where
  "audio_fade_out ts n i s =
     (let dur = stop s - start s; fadeOut = max 0 (dur - FADE)
      in if int i < int n - 1 then '',afade=t=out:st='' @ ts fadeOut @ '':d='' @ ts FADE else [])"

definition video_chain :: "(rat \<Rightarrow> string) \<Rightarrow> nat \<Rightarrow> nat \<Rightarrow> rat span \<Rightarrow> string" where
  "video_chain ts n i s =
     ''[0:v]trim='' @ ts (start s) @ '':'' @ ts (stop s) @ '',setpts=PTS-STARTPTS'' @
     video_fade_in ts i @ video_fade_out ts n i s @ ''[v'' @ nat_str i @ '']''"

definition audio_chain :: "(rat \<Rightarrow> string) \<Rightarrow> nat \<Rightarrow> nat \<Rightarrow> rat span \<Rightarrow> string" where
  "audio_chain ts n i s =
     ''[0:a]atrim='' @ ts (start s) @ '':'' @ ts (stop s) @ '',asetpts=PTS-STARTPTS'' @
     audio_fade_in ts i @ audio_fade_out ts n i s @ ''[a'' @ nat_str i @ '']''"






subsection \<open>\<^verbatim>\<open>server (2).js\<close>: buildConcatFilter\<close>







section \<open>Job queue and request handling of \<^verbatim>\<open>server.js\<close>\<close>

subsection \<open>State\<close>

datatype status = QUEUED | PROCESSING | DONE | ERROR

text \<open>The objects pushed to \<^verbatim>\<open>job.files\<close>; the field \<^verbatim>\<open>status\<close> is \<open>file_status\<close> here.\<close>

record file_task =
  originalName :: string
  inputPath :: string
  outputName :: "string option"
  file_status :: status

text \<open>A path is the list of its components.\<close>

type_synonym path = "string list"

text \<open>The job objects; the fields \<^verbatim>\<open>id\<close> and \<^verbatim>\<open>status\<close> are \<open>job_id\<close> and \<open>job_status\<close>.\<close>

record job =
  job_id :: string
  job_status :: status
  files :: "file_task list"
  uploadDir :: path
  outputDir :: path

definition BASE_DIR :: path where
  "BASE_DIR = [''jobs'']"

definition MAX_CONCURRENT_JOBS :: int where
  "MAX_CONCURRENT_JOBS = 2"

text \<open>
  The state of the server between two turns of the event loop.
  \<^item> \<open>heap\<close>: the job objects in the order of their creation. A job object is referred
    to by its index: the queue, the map and a suspended call hold references, and an
    object lives on after its entry in the map is deleted.
  \<^item> \<open>jobs\<close>: the \<^verbatim>\<open>Map\<close> from job id to job object, in insertion order.
  \<^item> \<open>queue\<close>, \<open>activeJobs\<close>: the globals of the same names.
  \<^item> \<open>awaiting\<close>: the calls of \<^verbatim>\<open>runQueue\<close> suspended at \<^verbatim>\<open>await processFile(job, f)\<close>:
    the job, and the index in \<^verbatim>\<open>job.files\<close> of the file \<^verbatim>\<open>f\<close> the loop has reached.
  \<^item> \<open>dirs\<close>: the directories on disk.
  \<^item> \<open>timers\<close>: the pending deletion timers, oldest first, each with the \<^verbatim>\<open>jobId\<close> and
    the \<^verbatim>\<open>jobDir\<close> it closes over.
\<close>

record server =
  heap :: "job list"
  jobs :: "(string \<times> nat) list"
  queue :: "nat list"
  activeJobs :: int
  awaiting :: "(nat \<times> nat) list"
  dirs :: "path set"
  timers :: "(string \<times> path) list"

text \<open>\<^verbatim>\<open>ensure(dir)\<close> is \<^verbatim>\<open>mkdirSync(dir, { recursive: true })\<close>: the directory and its
  missing ancestors. At start the server runs \<^verbatim>\<open>ensure(BASE_DIR)\<close>.\<close>

definition ensure :: "path \<Rightarrow> server \<Rightarrow> server" where
  "ensure dir st = st\<lparr>dirs := dirs st \<union> set (tl (prefixes dir))\<rparr>"

definition init :: server where
  "init = ensure BASE_DIR
     \<lparr>heap = [], jobs = [], queue = [], activeJobs = 0, awaiting = [], dirs = {}, timers = []\<rparr>"

text \<open>Assignment to a field of the job object \<open>j\<close>, and of its \<open>i\<close>-th file.\<close>

definition update_job :: "nat \<Rightarrow> (job \<Rightarrow> job) \<Rightarrow> server \<Rightarrow> server" where
  "update_job j f st = st\<lparr>heap := (heap st)[j := f (heap st ! j)]\<rparr>"

definition update_file :: "nat \<Rightarrow> nat \<Rightarrow> (file_task \<Rightarrow> file_task) \<Rightarrow> server \<Rightarrow> server" where
  "update_file j i f st =
     update_job j (\<lambda>jb. jb\<lparr>files := (files jb)[i := f (files jb ! i)]\<rparr>) st"

subsection \<open>runQueue\<close>

text \<open>
  \<^verbatim>\<open>
  async function runQueue() {
    if (activeJobs >= MAX_CONCURRENT_JOBS) return;
    const job = queue.shift();
    if (!job) return;
    activeJobs++;
    job.status = "PROCESSING";
    try {
      for (const f of job.files) {
        f.status = "PROCESSING";
        await processFile(job, f);
        f.status = "DONE";
      }
      job.status = "DONE";
    } catch (e) {
      job.status = "ERROR";
      console.error(e);
    } finally {
      activeJobs--;
      runQueue();
    }
  }
  \<close>
  \<open>runQueue\<close> is the part of a call that runs before control returns to the caller: up
  to the first \<^verbatim>\<open>await\<close>, where the call is suspended, or to the end. A job without files
  meets no \<^verbatim>\<open>await\<close>: it is done at once, and the \<^verbatim>\<open>finally\<close> block calls
  \<^verbatim>\<open>runQueue\<close> again.
\<close>

function runQueue :: "server \<Rightarrow> server" where
  "runQueue st =
     (if activeJobs st \<ge> MAX_CONCURRENT_JOBS then st
      else
        case queue st of
          [] \<Rightarrow> st
        | j # q \<Rightarrow>
            let st1 = update_job j (\<lambda>jb. jb\<lparr>job_status := PROCESSING\<rparr>)
                        (st\<lparr>queue := q, activeJobs := activeJobs st + 1\<rparr>)
            in if files (heap st1 ! j) = []
               then runQueue
                      ((update_job j (\<lambda>jb. jb\<lparr>job_status := DONE\<rparr>) st1)
                         \<lparr>activeJobs := activeJobs st1 - 1\<rparr>)
               else (update_file j 0 (\<lambda>f. f\<lparr>file_status := PROCESSING\<rparr>) st1)
                      \<lparr>awaiting := AList.update j 0 (awaiting st1)\<rparr>)"
  by pat_completeness auto
termination
  by (relation "measure (\<lambda>st. length (queue st))") (auto simp: update_job_def)

declare runQueue.simps [simp del]

text \<open>
  The rest of a suspended call, run when the awaited \<^verbatim>\<open>processFile\<close> settles. When it
  has completed (it has then set \<^verbatim>\<open>file.outputName\<close>), the file becomes \<^verbatim>\<open>DONE\<close> and the
  loop goes on with the next file, or ends; when it has failed, the \<^verbatim>\<open>catch\<close> block runs.
  Either way the \<^verbatim>\<open>finally\<close> block runs when the loop is left.
\<close>

datatype outcome = Completed string | Failed

definition settle :: "nat \<Rightarrow> outcome \<Rightarrow> server \<Rightarrow> server option" where
  "settle j out st =
     (case map_of (awaiting st) j of
        None \<Rightarrow> None
      | Some i \<Rightarrow>
          (case out of
             Failed \<Rightarrow>
               Some (runQueue
                 ((update_job j (\<lambda>jb. jb\<lparr>job_status := ERROR\<rparr>) st)
                    \<lparr>activeJobs := activeJobs st - 1, awaiting := AList.delete j (awaiting st)\<rparr>))
           | Completed name \<Rightarrow>
               let st1 = update_file j i (\<lambda>f. f\<lparr>outputName := Some name, file_status := DONE\<rparr>) st
               in if Suc i < length (files (heap st1 ! j))
                  then Some ((update_file j (Suc i) (\<lambda>f. f\<lparr>file_status := PROCESSING\<rparr>) st1)
                               \<lparr>awaiting := AList.update j (Suc i) (awaiting st1)\<rparr>)
                  else Some (runQueue
                         ((update_job j (\<lambda>jb. jb\<lparr>job_status := DONE\<rparr>) st1)
                            \<lparr>activeJobs := activeJobs st1 - 1,
                             awaiting := AList.delete j (awaiting st1)\<rparr>))))"

subsection \<open>Requests\<close>

text \<open>
  The middleware stack is, in this order: \<^verbatim>\<open>express.static("public")\<close>,
  \<^verbatim>\<open>express.urlencoded\<close>, the job creation middleware, the routes. A request is
  \<^item> \<open>Intercepted\<close> when a middleware before the job creation ends it: \<^verbatim>\<open>express.static\<close>
    answers a \<^verbatim>\<open>GET\<close> for a file it finds under \<^verbatim>\<open>public\<close> (the upload page), and
    \<^verbatim>\<open>express.urlencoded\<close> refuses a body it cannot read; neither calls the next
    middleware then;
  \<^item> \<open>Upload fs\<close>: \<^verbatim>\<open>POST /upload\<close>, with the \<^verbatim>\<open>originalname\<close> and \<^verbatim>\<open>path\<close> of every file
    that multer has stored;
  \<^item> \<open>Status jobId\<close>: \<^verbatim>\<open>GET /status/:jobId\<close>;
  \<^item> \<open>Download jobId file\<close>: \<^verbatim>\<open>GET /download/:jobId/:file\<close>;
  \<^item> \<open>NoRoute\<close>: any other request that reaches the job creation middleware (no route
    matches, or multer refuses the upload).
  The responses are not modelled.
\<close>

datatype request =
  Intercepted
| Upload "(string \<times> string) list"
| Status string
| Download string string
| NoRoute

text \<open>
  \<^verbatim>\<open>
  app.use((req, res, next) => {
    const jobId = uid();
    const jobDir = path.join(BASE_DIR, jobId);
    const uploadDir = path.join(jobDir, "uploads");
    const outputDir = path.join(jobDir, "outputs");
    ensure(uploadDir);
    ensure(outputDir);
    const job = { id: jobId, status: "QUEUED", files: [], uploadDir, outputDir };
    jobs.set(jobId, job);
    req.job = job;
    setTimeout(() => {
      fs.rm(jobDir, { recursive: true, force: true }, () => {});
      jobs.delete(jobId);
    }, JOB_TTL);
    next();
  });
  \<close>
  \<open>jobId\<close> is the identifier that \<^verbatim>\<open>crypto.randomUUID()\<close> returns to this call. The new
  job object is the last one of the heap.
\<close>

definition createJob :: "string \<Rightarrow> server \<Rightarrow> server" where
  "createJob jobId st =
     (let jobDir = BASE_DIR @ [jobId];
          uploadDir' = jobDir @ [''uploads''];
          outputDir' = jobDir @ [''outputs''];
          st1 = ensure outputDir' (ensure uploadDir' st);
          jb = \<lparr>job_id = jobId, job_status = QUEUED, files = [],
                uploadDir = uploadDir', outputDir = outputDir'\<rparr>
      in st1\<lparr>heap := heap st1 @ [jb],
             jobs := AList.update jobId (length (heap st1)) (jobs st1),
             timers := timers st1 @ [(jobId, jobDir)]\<rparr>)"

text \<open>
  \<^verbatim>\<open>
  app.post("/upload", upload.array("files", MAX_FILES), (req, res) => {
    const job = req.job;
    req.files.forEach(f => {
      job.files.push({ originalName: f.originalname, inputPath: f.path,
                       outputName: null, status: "QUEUED" });
    });
    queue.push(job);
    runQueue();
    res.redirect(`/status/${job.id}`);
  });
  \<close>
  The two \<^verbatim>\<open>GET\<close> routes only read \<^verbatim>\<open>jobs\<close>.
\<close>

definition new_file :: "string \<times> string \<Rightarrow> file_task" where
  "new_file f = \<lparr>originalName = fst f, inputPath = snd f, outputName = None, file_status = QUEUED\<rparr>"

definition handle_request :: "string \<Rightarrow> request \<Rightarrow> server \<Rightarrow> server" where
  "handle_request jobId req st =
     (case req of
        Intercepted \<Rightarrow> st
      | Upload fs \<Rightarrow>
          (let st1 = createJob jobId st;
               j = length (heap st1) - 1;
               st2 = update_job j (\<lambda>jb. jb\<lparr>files := files jb @ map new_file fs\<rparr>) st1
           in runQueue (st2\<lparr>queue := queue st2 @ [j]\<rparr>))
      | Status a \<Rightarrow> createJob jobId st
      | Download a b \<Rightarrow> createJob jobId st
      | NoRoute \<Rightarrow> createJob jobId st)"

text \<open>The oldest timer fires (all timers have the same delay \<^verbatim>\<open>JOB_TTL\<close>): the job
  directory is removed with all it holds, and the entry of \<^verbatim>\<open>jobId\<close> is deleted from the
  map.\<close>

definition expire :: "server \<Rightarrow> server option" where
  "expire st =
     (case timers st of
        [] \<Rightarrow> None
      | (jobId, jobDir) # ts \<Rightarrow>
          Some (st\<lparr>timers := ts,
                   dirs := Set.filter (\<lambda>p. \<not> prefix jobDir p) (dirs st),
                   jobs := AList.delete jobId (jobs st)\<rparr>))"

subsection \<open>The event loop\<close>

text \<open>One turn of the event loop: a request arrives, the \<^verbatim>\<open>processFile\<close> that the call
  for job \<open>j\<close> awaits settles, or the oldest timer fires. \<open>None\<close>: the event cannot
  happen in this state.\<close>

datatype event = Request string request | Settle nat outcome | Expire

definition step :: "event \<Rightarrow> server \<Rightarrow> server option" where
  "step e st =
     (case e of
        Request jobId req \<Rightarrow> Some (handle_request jobId req st)
      | Settle j out \<Rightarrow> settle j out st
      | Expire \<Rightarrow> expire st)"

fun run :: "event list \<Rightarrow> server \<Rightarrow> server option" where
  "run [] st = Some st"
| "run (e # es) st = (case step e st of None \<Rightarrow> None | Some st' \<Rightarrow> run es st')"

inductive reachable :: "server \<Rightarrow> bool" where
  reachable_init: "reachable init"
| reachable_step: "reachable st \<Longrightarrow> step e st = Some st' \<Longrightarrow> reachable st'"

subsection \<open>Observations and invariants\<close>

definition count_processing :: "server \<Rightarrow> nat" where
  "count_processing st = length (filter (\<lambda>jb. job_status jb = PROCESSING) (heap st))"

text \<open>The statuses of the files of a job that is worked through from the first file to
  the last: completed files, then at most one file in work, then untouched files.\<close>

fun in_upload_order :: "status list \<Rightarrow> bool" where
  "in_upload_order [] = True"
| "in_upload_order (DONE # r) = in_upload_order r"
| "in_upload_order (PROCESSING # r) = list_all (\<lambda>s. s = QUEUED) r"
| "in_upload_order (QUEUED # r) = list_all (\<lambda>s. s = QUEUED) r"
| "in_upload_order (ERROR # r) = False"

text \<open>The files of a job whose loop has reached the file of index \<open>i\<close>.\<close>

definition file_pattern :: "nat \<Rightarrow> file_task list \<Rightarrow> bool" where
  "file_pattern i fs =
     (\<forall>k<length fs. file_status (fs ! k) =
        (if k < i then DONE else if k = i then PROCESSING else QUEUED))"

text \<open>
  The invariants of the reachable states:
  \<^item> as many jobs are \<^verbatim>\<open>PROCESSING\<close> as \<open>activeJobs\<close> says, and no more than the limit;
  \<^item> the queue holds distinct jobs, all \<^verbatim>\<open>QUEUED\<close> with all their files \<^verbatim>\<open>QUEUED\<close>;
  \<^item> a suspended call belongs to a \<^verbatim>\<open>PROCESSING\<close> job whose files before the awaited
    one are \<^verbatim>\<open>DONE\<close>, the awaited one \<^verbatim>\<open>PROCESSING\<close>, the later ones \<^verbatim>\<open>QUEUED\<close>;
  \<^item> the files of every job are worked through in their order;
  \<^item> the map refers to existing job objects;
  \<^item> a job waits in the queue only while the limit is reached.
\<close>

definition inv_count :: "server \<Rightarrow> bool" where
  "inv_count st =
     (int (count_processing st) = activeJobs st \<and> activeJobs st \<le> MAX_CONCURRENT_JOBS)"

definition inv_queue :: "server \<Rightarrow> bool" where
  "inv_queue st =
     (distinct (queue st) \<and>
      (\<forall>j\<in>set (queue st). j < length (heap st) \<and> job_status (heap st ! j) = QUEUED \<and>
         (\<forall>f\<in>set (files (heap st ! j)). file_status f = QUEUED)))"

definition inv_await :: "server \<Rightarrow> bool" where
  "inv_await st =
     (\<forall>j i. map_of (awaiting st) j = Some i \<longrightarrow>
        j < length (heap st) \<and> job_status (heap st ! j) = PROCESSING \<and>
        i < length (files (heap st ! j)) \<and> file_pattern i (files (heap st ! j)))"

definition inv_files :: "server \<Rightarrow> bool" where
  "inv_files st = (\<forall>jb\<in>set (heap st). in_upload_order (map file_status (files jb)))"

definition inv_jobs :: "server \<Rightarrow> bool" where
  "inv_jobs st = (\<forall>jobId r. map_of (jobs st) jobId = Some r \<longrightarrow> r < length (heap st))"

definition inv_busy :: "server \<Rightarrow> bool" where
  "inv_busy st = (queue st = [] \<or> activeJobs st \<ge> MAX_CONCURRENT_JOBS)"

definition core_inv :: "server \<Rightarrow> bool" where
  "core_inv st = (inv_count st \<and> inv_queue st \<and> inv_await st \<and> inv_files st \<and> inv_jobs st)"

text \<open>The two ways a call of \<^verbatim>\<open>runQueue\<close> goes on after it has taken the job \<open>j\<close> from
  the head of the queue: the job has no file and is done at once, or its first file is
  taken in work and the call is suspended.\<close>

definition skip_job :: "nat \<Rightarrow> nat list \<Rightarrow> server \<Rightarrow> server" where
  "skip_job j q st = update_job j (\<lambda>jb. jb\<lparr>job_status := DONE\<rparr>) (st\<lparr>queue := q\<rparr>)"

definition admit_job :: "nat \<Rightarrow> nat list \<Rightarrow> server \<Rightarrow> server" where
  "admit_job j q st =
     (update_job j
        (\<lambda>jb. jb\<lparr>job_status := PROCESSING,
                  files := (files jb)[0 := (files jb ! 0)\<lparr>file_status := PROCESSING\<rparr>]\<rparr>)
        (st\<lparr>queue := q, activeJobs := activeJobs st + 1\<rparr>))
     \<lparr>awaiting := AList.update j 0 (awaiting st)\<rparr>"

text \<open>The state in which \<^verbatim>\<open>runQueue\<close> is called from the \<^verbatim>\<open>finally\<close> block of the call for
  job \<open>j\<close>, which has ended with the status \<open>s\<close>.\<close>

definition leave_job :: "nat \<Rightarrow> status \<Rightarrow> server \<Rightarrow> server" where
  "leave_job j s st =
     (update_job j (\<lambda>jb. jb\<lparr>job_status := s\<rparr>) st)
     \<lparr>activeJobs := activeJobs st - 1, awaiting := AList.delete j (awaiting st)\<rparr>"

subsection \<open>An example\<close>

text \<open>Three uploads of one file each. The first two jobs are taken in work, the third
  one waits in the queue.\<close>

definition three_uploads :: "event list" where
  "three_uploads =
     [Request ''id-a'' (Upload [(''a.mp4'', ''uploads/1-a.mp4'')]),
      Request ''id-b'' (Upload [(''b.mp4'', ''uploads/2-b.mp4'')]),
      Request ''id-c'' (Upload [(''c.mp4'', ''uploads/3-c.mp4'')])]"

definition busy_state :: server where
  "busy_state = the (run three_uploads init)"

section \<open>Segment planner: properties\<close>











text \<open>
  C2. With \<^verbatim>\<open>totalDuration = 10\<close>, the one silence \<^verbatim>\<open>{start: 3, end: 5}\<close>, both buffers
  \<^verbatim>\<open>0.5\<close> and \<^verbatim>\<open>minKeep = 0.2\<close>, the planner of \<^verbatim>\<open>server (2).js\<close> returns exactly the two
  segments \<^verbatim>\<open>{0, 3.5}\<close> and \<^verbatim>\<open>{4.5, 10}\<close>.
\<close>

theorem buildKeepSegments2_example:
  "buildKeepSegments2 [\<lparr>s_start = 3, s_stop = Some 5\<rparr>] 10 0.5 0.5 0.2 =
     [\<lparr>start = 0, stop = 3.5\<rparr>, \<lparr>start = 4.5, stop = 10\<rparr>]"
  by (simp add: buildKeepSegments2_def)




text \<open>
  C3, as the code has it. For every \<^verbatim>\<open>totalDuration\<close>: on an empty silence list the
  planner of \<^verbatim>\<open>server (2).js\<close> returns the one segment \<^verbatim>\<open>{0, totalDuration}\<close> when
  \<^verbatim>\<open>totalDuration \<ge> minKeep\<close> (that of \<^verbatim>\<open>server.js\<close>: when \<^verbatim>\<open>totalDuration > 0\<close>), and the
  empty sequence only otherwise. On the single silence spanning \<^verbatim>\<open>[0, totalDuration]\<close> it
  returns, with the default buffers, the leading segment \<^verbatim>\<open>{0, 0.5}\<close>, followed by the
  trailing segment from \<^verbatim>\<open>max(0, totalDuration - 0.5)\<close> to \<^verbatim>\<open>totalDuration\<close> when that one is
  at least \<^verbatim>\<open>0.2\<close> long (\<^verbatim>\<open>server.js\<close>: \<^verbatim>\<open>{0, 0.3}\<close> and \<^verbatim>\<open>{totalDuration - 0.3, totalDuration}\<close>):
  never the empty sequence.
\<close>

theorem keep_segments_boundary:
  "buildKeepSegments2 [] totalDuration postSpeechBuffer preSpeechBuffer minKeep =
     (if totalDuration \<ge> minKeep then [\<lparr>start = 0, stop = totalDuration\<rparr>] else []) \<and>
   buildKeepSegments2_default [\<lparr>s_start = 0, s_stop = Some totalDuration\<rparr>] totalDuration =
     \<lparr>start = 0, stop = 0.5\<rparr> #
     (if totalDuration - max 0 (totalDuration - 0.5) \<ge> 0.2
      then [\<lparr>start = max 0 (totalDuration - 0.5), stop = totalDuration\<rparr>] else []) \<and>
   buildKeepSegments1 [] totalDuration =
     (if 0 < totalDuration then [\<lparr>start = 0, stop = totalDuration\<rparr>] else []) \<and>
   buildKeepSegments1 [\<lparr>start = 0, stop = totalDuration\<rparr>] totalDuration =
     [\<lparr>start = 0, stop = 0.3\<rparr>, \<lparr>start = totalDuration - 0.3, stop = totalDuration\<rparr>]"
proof -
  have a: "buildKeepSegments2 [] totalDuration postSpeechBuffer preSpeechBuffer minKeep =
     (if totalDuration \<ge> minKeep then [\<lparr>start = 0, stop = totalDuration\<rparr>] else [])"
    by (simp add: buildKeepSegments2_def)
  have b: "buildKeepSegments2_default [\<lparr>s_start = 0, s_stop = Some totalDuration\<rparr>] totalDuration =
     \<lparr>start = 0, stop = 0.5\<rparr> #
     (if totalDuration - max 0 (totalDuration - 0.5) \<ge> 0.2
      then [\<lparr>start = max 0 (totalDuration - 0.5), stop = totalDuration\<rparr>] else [])"
    by (simp add: buildKeepSegments2_def buildKeepSegments2_default_def Let_def)
  have c: "buildKeepSegments1 [] totalDuration =
     (if 0 < totalDuration then [\<lparr>start = 0, stop = totalDuration\<rparr>] else [])"
    by (simp add: buildKeepSegments1_def)
  have d: "buildKeepSegments1 [\<lparr>start = 0, stop = totalDuration\<rparr>] totalDuration =
     [\<lparr>start = 0, stop = 0.3\<rparr>, \<lparr>start = totalDuration - 0.3, stop = totalDuration\<rparr>]"
    by (simp add: buildKeepSegments1_def KEEP_BEFORE_def KEEP_AFTER_def Let_def)
  from a b c d show ?thesis by blast
qed

theorem keep_segments_boundary_witness:
  "buildKeepSegments2 [] 10 0.5 0.5 0.2 = [\<lparr>start = 0, stop = 10\<rparr>] \<and>
   buildKeepSegments2_default [\<lparr>s_start = 0, s_stop = Some 10\<rparr>] 10 =
     [\<lparr>start = 0, stop = 0.5\<rparr>, \<lparr>start = 9.5, stop = 10\<rparr>] \<and>
   buildKeepSegments1 [] 10 = [\<lparr>start = 0, stop = 10\<rparr>] \<and>
   buildKeepSegments1 [\<lparr>start = 0, stop = 10\<rparr>] 10 =
     [\<lparr>start = 0, stop = 0.3\<rparr>, \<lparr>start = 9.7, stop = 10\<rparr>]"
  using keep_segments_boundary [of 10 "0.5" "0.5" "0.2"] by simp

text \<open>
  C3 as stated fails: in a media of 10 seconds neither the empty silence list nor the
  silence spanning the whole media gives the empty sequence, in either variant.
\<close>

theorem keep_segments_boundary_counterexample:
  "buildKeepSegments2_default [] 10 \<noteq> [] \<and>
   buildKeepSegments2_default [\<lparr>s_start = 0, s_stop = Some 10\<rparr>] 10 \<noteq> [] \<and>
   buildKeepSegments1 [] 10 \<noteq> [] \<and>
   buildKeepSegments1 [\<lparr>start = 0, stop = 10\<rparr>] 10 \<noteq> []"
  by (simp add: buildKeepSegments2_def buildKeepSegments2_default_def buildKeepSegments1_def
      KEEP_BEFORE_def KEEP_AFTER_def Let_def)

section \<open>Silence detectors: properties\<close>









text \<open>The detector of \<^verbatim>\<open>server.js\<close> returns no silence shorter than \<^verbatim>\<open>MIN_SILENCE\<close>: its
  planner is never given one.\<close>

lemma long_enough_finite:
  "long_enough \<lparr>start = Num a, stop = Num b\<rparr> \<longleftrightarrow> MIN_SILENCE \<le> b - a"
  by (simp add: long_enough_def js_sub_def js_ge_def)

lemma silenceLoop1_long_enough:
  "list_all long_enough sil \<Longrightarrow> list_all long_enough (fst (silenceLoop1 ls (sil, cur)))"
  by (induction ls arbitrary: sil cur)
     (auto simp: Let_def long_enough_def split: option.splits)

lemma detectSilences1_long_enough:
  "detectSilences1 r = Inr sil \<Longrightarrow> list_all long_enough sil"
  using silenceLoop1_long_enough [of "[]"]
  by (auto simp: detectSilences1_def split: ff_result.splits)





section \<open>Duration probes: properties\<close>

lemma getDuration1_example:
  "getDuration1 (Rejected (''  Duration: 00:01:02.50, start: 0.000000'' @ newline @
                           ''At least one output file must be specified'')) =
   Inr (Number (Num 62.5))"
  by code_simp




section \<open>Filter graph builders: properties\<close>






lemma video_prefix [simp]:
  "prefix ''[0:v]trim='' (video_chain ts n i s)"
  "\<not> prefix ''[0:v]trim='' (audio_chain ts n i s)"
  "\<not> prefix ''[0:a]atrim='' (video_chain ts n i s)"
  "prefix ''[0:a]atrim='' (audio_chain ts n i s)"
  by (simp_all add: video_chain_def audio_chain_def)










section \<open>Job queue and request handling: properties\<close>

subsection \<open>Basic facts\<close>

lemma update_job_simps [simp]:
  "heap (update_job j f st) = (heap st)[j := f (heap st ! j)]"
  "jobs (update_job j f st) = jobs st"
  "queue (update_job j f st) = queue st"
  "activeJobs (update_job j f st) = activeJobs st"
  "awaiting (update_job j f st) = awaiting st"
  "dirs (update_job j f st) = dirs st"
  "timers (update_job j f st) = timers st"
  by (simp_all add: update_job_def)

lemma count_list_update:
  "j < length xs \<Longrightarrow>
   length (filter P (xs[j := x])) + (if P (xs ! j) then 1 else 0) =
   length (filter P xs) + (if P x then 1 else 0)"
proof (induction xs arbitrary: j)
  case Nil
  then show ?case by simp
next
  case (Cons a xs)
  show ?case
  proof (cases j)
    case 0
    then show ?thesis by simp
  next
    case (Suc k)
    with Cons.prems have "k < length xs" by simp
    from Cons.IH [OF this] show ?thesis using Suc by simp
  qed
qed

lemma count_processing_fields [simp]:
  "count_processing (st\<lparr>queue := q\<rparr>) = count_processing st"
  "count_processing (st\<lparr>activeJobs := a\<rparr>) = count_processing st"
  "count_processing (st\<lparr>awaiting := w\<rparr>) = count_processing st"
  by (simp_all add: count_processing_def)

lemma in_upload_order_queued:
  "list_all (\<lambda>s. s = QUEUED) ss \<Longrightarrow> in_upload_order ss"
  by (cases ss) auto

lemma in_upload_order_done:
  "list_all (\<lambda>s. s = DONE) ss \<Longrightarrow> in_upload_order ss"
  by (induction ss) auto

lemma in_upload_order_pattern:
  "\<forall>k<length ss. ss ! k = (if k < i then DONE else if k = i then PROCESSING else QUEUED)
   \<Longrightarrow> in_upload_order ss"
proof (induction ss arbitrary: i)
  case Nil
  then show ?case by simp
next
  case (Cons s ss)
  show ?case
  proof (cases i)
    case 0
    from Cons.prems have hd: "s = PROCESSING" using 0 by auto
    have "ss ! k = QUEUED" if "k < length ss" for k
      using Cons.prems [rule_format, of "Suc k"] that 0 by simp
    then have "list_all (\<lambda>s. s = QUEUED) ss"
      by (simp add: list_all_length)
    with hd show ?thesis by simp
  next
    case (Suc i')
    from Cons.prems have hd: "s = DONE" using Suc by auto
    have "\<forall>k<length ss. ss ! k = (if k < i' then DONE else if k = i' then PROCESSING else QUEUED)"
    proof (intro allI impI)
      fix k assume "k < length ss"
      with Cons.prems [rule_format, of "Suc k"] Suc
      show "ss ! k = (if k < i' then DONE else if k = i' then PROCESSING else QUEUED)"
        by simp
    qed
    from Cons.IH [OF this] hd show ?thesis by simp
  qed
qed

lemma file_pattern_in_order:
  "file_pattern i fs \<Longrightarrow> in_upload_order (map file_status fs)"
  by (rule in_upload_order_pattern [of _ i]) (simp add: file_pattern_def)

lemma in_upload_order_no_error:
  "in_upload_order ss \<Longrightarrow> ERROR \<notin> set ss"
proof (induction ss rule: in_upload_order.induct)
  case (3 r)
  then show ?case by (auto simp: list_all_iff)
next
  case (4 r)
  then show ?case by (auto simp: list_all_iff)
qed simp_all


lemma runQueue_full: "activeJobs st \<ge> MAX_CONCURRENT_JOBS \<Longrightarrow> runQueue st = st"
  by (subst runQueue.simps) simp

lemma runQueue_empty: "queue st = [] \<Longrightarrow> runQueue st = st"
  by (subst runQueue.simps) simp

lemma runQueue_skip:
  assumes "activeJobs st < MAX_CONCURRENT_JOBS" and "queue st = j # q"
    and "j < length (heap st)" and "files (heap st ! j) = []"
  shows "runQueue st = runQueue (skip_job j q st)"
proof -
  have "(update_job j (\<lambda>jb. jb\<lparr>job_status := DONE\<rparr>)
          (update_job j (\<lambda>jb. jb\<lparr>job_status := PROCESSING\<rparr>)
             (st\<lparr>queue := q, activeJobs := activeJobs st + 1\<rparr>)))
        \<lparr>activeJobs := activeJobs st + 1 - 1\<rparr> = skip_job j q st"
    using assms(3) by (simp add: skip_job_def update_job_def)
  then show ?thesis
    using assms by (subst runQueue.simps) (simp add: Let_def)
qed

lemma runQueue_admit:
  assumes "activeJobs st < MAX_CONCURRENT_JOBS" and "queue st = j # q"
    and "j < length (heap st)" and "files (heap st ! j) \<noteq> []"
  shows "runQueue st = admit_job j q st"
proof -
  have "(update_file j 0 (\<lambda>f. f\<lparr>file_status := PROCESSING\<rparr>)
          (update_job j (\<lambda>jb. jb\<lparr>job_status := PROCESSING\<rparr>)
             (st\<lparr>queue := q, activeJobs := activeJobs st + 1\<rparr>)))
        \<lparr>awaiting := AList.update j 0 (awaiting st)\<rparr> = admit_job j q st"
    using assms(3) by (simp add: admit_job_def update_file_def update_job_def)
  then show ?thesis
    using assms by (subst runQueue.simps) (simp add: Let_def)
qed

lemma skip_job_simps [simp]:
  "heap (skip_job j q st) = (heap st)[j := (heap st ! j)\<lparr>job_status := DONE\<rparr>]"
  "jobs (skip_job j q st) = jobs st"
  "queue (skip_job j q st) = q"
  "activeJobs (skip_job j q st) = activeJobs st"
  "awaiting (skip_job j q st) = awaiting st"
  "dirs (skip_job j q st) = dirs st"
  "timers (skip_job j q st) = timers st"
  by (simp_all add: skip_job_def)

lemma admit_job_simps [simp]:
  "heap (admit_job j q st) =
     (heap st)[j := (heap st ! j)\<lparr>job_status := PROCESSING,
        files := (files (heap st ! j))[0 := (files (heap st ! j) ! 0)\<lparr>file_status := PROCESSING\<rparr>]\<rparr>]"
  "jobs (admit_job j q st) = jobs st"
  "queue (admit_job j q st) = q"
  "activeJobs (admit_job j q st) = activeJobs st + 1"
  "awaiting (admit_job j q st) = AList.update j 0 (awaiting st)"
  "dirs (admit_job j q st) = dirs st"
  "timers (admit_job j q st) = timers st"
  by (simp_all add: admit_job_def)

lemma leave_job_simps [simp]:
  "heap (leave_job j s st) = (heap st)[j := (heap st ! j)\<lparr>job_status := s\<rparr>]"
  "jobs (leave_job j s st) = jobs st"
  "queue (leave_job j s st) = queue st"
  "activeJobs (leave_job j s st) = activeJobs st - 1"
  "awaiting (leave_job j s st) = AList.delete j (awaiting st)"
  "dirs (leave_job j s st) = dirs st"
  "timers (leave_job j s st) = timers st"
  by (simp_all add: leave_job_def)

text \<open>What the invariants say about the head of the queue.\<close>

lemma queue_head:
  assumes "inv_queue st" and "inv_await st" and "queue st = j # q"
  shows "j < length (heap st)" and "job_status (heap st ! j) = QUEUED"
    and "\<forall>f\<in>set (files (heap st ! j)). file_status f = QUEUED"
    and "j \<notin> set q" and "distinct q" and "map_of (awaiting st) j = None"
proof -
  from assms(1,3) show h: "j < length (heap st)" "job_status (heap st ! j) = QUEUED"
    "\<forall>f\<in>set (files (heap st ! j)). file_status f = QUEUED" "j \<notin> set q" "distinct q"
    by (simp_all add: inv_queue_def)
  show "map_of (awaiting st) j = None"
  proof (cases "map_of (awaiting st) j")
    case (Some i)
    with assms(2) have "job_status (heap st ! j) = PROCESSING" by (simp add: inv_await_def)
    with h(2) show ?thesis by simp
  qed simp
qed


lemma inv_queue_rest:
  assumes "inv_queue st" and "queue st = j # q" and "queue st' = q"
    and "length (heap st') = length (heap st)"
    and "\<And>j'. j' \<noteq> j \<Longrightarrow> heap st' ! j' = heap st ! j'"
  shows "inv_queue st'"
  unfolding inv_queue_def
proof (intro conjI)
  from assms(1,2) have d: "distinct q" "j \<notin> set q" by (simp_all add: inv_queue_def)
  then show "distinct (queue st')" using assms(3) by simp
  show "\<forall>j'\<in>set (queue st'). j' < length (heap st') \<and> job_status (heap st' ! j') = QUEUED \<and>
          (\<forall>f\<in>set (files (heap st' ! j')). file_status f = QUEUED)"
  proof
    fix j' assume "j' \<in> set (queue st')"
    then have j': "j' \<in> set q" using assms(3) by simp
    with d(2) have ne: "j' \<noteq> j" by auto
    from assms(1,2) j' have "j' < length (heap st) \<and> job_status (heap st ! j') = QUEUED \<and>
        (\<forall>f\<in>set (files (heap st ! j')). file_status f = QUEUED)"
      by (simp add: inv_queue_def)
    then show "j' < length (heap st') \<and> job_status (heap st' ! j') = QUEUED \<and>
        (\<forall>f\<in>set (files (heap st' ! j')). file_status f = QUEUED)"
      using assms(4) assms(5) [OF ne] by simp
  qed
qed

lemma inv_await_frame:
  assumes "inv_await st" and "length (heap st) \<le> length (heap st')"
    and "\<And>j' i. map_of (awaiting st') j' = Some i \<Longrightarrow>
           map_of (awaiting st) j' = Some i \<and> heap st' ! j' = heap st ! j'"
  shows "inv_await st'"
  unfolding inv_await_def
proof (intro allI impI)
  fix j' i assume "map_of (awaiting st') j' = Some i"
  from assms(3) [OF this] have m: "map_of (awaiting st) j' = Some i"
    and e: "heap st' ! j' = heap st ! j'" by simp_all
  from assms(1) m have "j' < length (heap st) \<and> job_status (heap st ! j') = PROCESSING \<and>
      i < length (files (heap st ! j')) \<and> file_pattern i (files (heap st ! j'))"
    by (simp add: inv_await_def)
  then show "j' < length (heap st') \<and> job_status (heap st' ! j') = PROCESSING \<and>
      i < length (files (heap st' ! j')) \<and> file_pattern i (files (heap st' ! j'))"
    using assms(2) e by simp
qed

lemma core_inv_skip:
  assumes "core_inv st" and "queue st = j # q" and "files (heap st ! j) = []"
  shows "core_inv (skip_job j q st)"
proof -
  from assms(1) have c: "inv_count st" and qu: "inv_queue st" and aw: "inv_await st"
    and fi: "inv_files st" and jo: "inv_jobs st"
    by (simp_all add: core_inv_def)
  note h = queue_head [OF qu aw assms(2)]
  have 1: "inv_count (skip_job j q st)"
    using c h(2) count_list_update [OF h(1), of "\<lambda>jb. job_status jb = PROCESSING"
        "(heap st ! j)\<lparr>job_status := DONE\<rparr>"]
    by (simp add: inv_count_def count_processing_def)
  have 2: "inv_queue (skip_job j q st)"
    by (rule inv_queue_rest [OF qu assms(2)]) simp_all
  have 3: "inv_await (skip_job j q st)"
  proof (rule inv_await_frame [OF aw])
    fix j' i assume "map_of (awaiting (skip_job j q st)) j' = Some i"
    then have m: "map_of (awaiting st) j' = Some i" by simp
    with h(6) have "j' \<noteq> j" by auto
    with m show "map_of (awaiting st) j' = Some i \<and> heap (skip_job j q st) ! j' = heap st ! j'"
      by simp
  qed simp
  have 4: "inv_files (skip_job j q st)"
    using fi assms(3) h(1) by (auto simp: inv_files_def set_conv_nth nth_list_update)
  have 5: "inv_jobs (skip_job j q st)"
    using jo by (simp add: inv_jobs_def)
  from 1 2 3 4 5 show ?thesis by (simp add: core_inv_def)
qed

lemma file_pattern_first:
  assumes "\<forall>f\<in>set fs. file_status f = QUEUED" and "fs \<noteq> []"
  shows "file_pattern 0 (fs[0 := (fs ! 0)\<lparr>file_status := PROCESSING\<rparr>])"
  using assms by (auto simp: file_pattern_def nth_list_update)

lemma core_inv_admit:
  assumes "core_inv st" and "activeJobs st < MAX_CONCURRENT_JOBS" and "queue st = j # q"
    and "files (heap st ! j) \<noteq> []"
  shows "core_inv (admit_job j q st)"
proof -
  from assms(1) have c: "inv_count st" and qu: "inv_queue st" and aw: "inv_await st"
    and fi: "inv_files st" and jo: "inv_jobs st"
    by (simp_all add: core_inv_def)
  note h = queue_head [OF qu aw assms(3)]
  let ?jb = "(heap st ! j)\<lparr>job_status := PROCESSING,
        files := (files (heap st ! j))[0 := (files (heap st ! j) ! 0)\<lparr>file_status := PROCESSING\<rparr>]\<rparr>"
  have pat: "file_pattern 0 (files ?jb)"
    using file_pattern_first [OF h(3) assms(4)] by simp
  have cnt: "int (count_processing (admit_job j q st)) = int (count_processing st) + 1"
    using h(2) count_list_update [OF h(1), of "\<lambda>jb. job_status jb = PROCESSING" ?jb]
    by (simp add: count_processing_def)
  have 1: "inv_count (admit_job j q st)"
    using c cnt assms(2) by (simp add: inv_count_def)
  have 2: "inv_queue (admit_job j q st)"
    by (rule inv_queue_rest [OF qu assms(3)]) simp_all
  have 3: "inv_await (admit_job j q st)"
    unfolding inv_await_def
  proof (intro allI impI)
    fix j' i assume m: "map_of (awaiting (admit_job j q st)) j' = Some i"
    show "j' < length (heap (admit_job j q st)) \<and>
          job_status (heap (admit_job j q st) ! j') = PROCESSING \<and>
          i < length (files (heap (admit_job j q st) ! j')) \<and>
          file_pattern i (files (heap (admit_job j q st) ! j'))"
    proof (cases "j' = j")
      case True
      with m have "i = 0" by (simp add: update_conv')
      with True h(1) pat assms(4) show ?thesis by simp
    next
      case False
      with m have "map_of (awaiting st) j' = Some i" by (simp add: update_conv')
      with aw False show ?thesis by (simp add: inv_await_def)
    qed
  qed
  have 4: "inv_files (admit_job j q st)"
    unfolding inv_files_def
  proof
    fix jb assume "jb \<in> set (heap (admit_job j q st))"
    then have "jb = ?jb \<or> jb \<in> set (heap st)"
      using set_update_subset_insert [of "heap st" j ?jb] by auto
    then show "in_upload_order (map file_status (files jb))"
      using file_pattern_in_order [OF pat] fi by (auto simp: inv_files_def)
  qed
  have 5: "inv_jobs (admit_job j q st)"
    using jo by (simp add: inv_jobs_def)
  from 1 2 3 4 5 show ?thesis by (simp add: core_inv_def)
qed

lemma runQueue_core: "core_inv st \<Longrightarrow> core_inv (runQueue st)"
proof (induction "queue st" arbitrary: st)
  case Nil
  then show ?case by (simp add: runQueue_empty)
next
  case (Cons j q)
  from Cons.hyps(2) have qs: "queue st = j # q" by simp
  from Cons.prems have qu: "inv_queue st" and aw: "inv_await st" by (simp_all add: core_inv_def)
  note h = queue_head [OF qu aw qs]
  show ?case
  proof (cases "activeJobs st \<ge> MAX_CONCURRENT_JOBS")
    case True
    then show ?thesis using Cons.prems by (simp add: runQueue_full)
  next
    case False
    then have a: "activeJobs st < MAX_CONCURRENT_JOBS" by simp
    show ?thesis
    proof (cases "files (heap st ! j) = []")
      case True
      have "core_inv (skip_job j q st)" by (rule core_inv_skip [OF Cons.prems qs True])
      then have "core_inv (runQueue (skip_job j q st))"
        by (rule Cons.hyps(1) [rotated]) simp
      then show ?thesis by (simp add: runQueue_skip [OF a qs h(1) True])
    next
      case False
      then show ?thesis
        using core_inv_admit [OF Cons.prems a qs False] by (simp add: runQueue_admit [OF a qs h(1)])
    qed
  qed
qed


text \<open>Induction over a call of \<open>runQueue\<close> in a state that satisfies the invariants.\<close>

lemma runQueue_induct [consumes 1, case_names stop skip admit]:
  assumes "core_inv st"
    and stop: "\<And>st. core_inv st \<Longrightarrow> activeJobs st \<ge> MAX_CONCURRENT_JOBS \<or> queue st = [] \<Longrightarrow> P st st"
    and skip: "\<And>st j q. core_inv st \<Longrightarrow> activeJobs st < MAX_CONCURRENT_JOBS \<Longrightarrow>
       queue st = j # q \<Longrightarrow> j < length (heap st) \<Longrightarrow> files (heap st ! j) = [] \<Longrightarrow>
       core_inv (skip_job j q st) \<Longrightarrow>
       P (skip_job j q st) (runQueue (skip_job j q st)) \<Longrightarrow> P st (runQueue (skip_job j q st))"
    and admit: "\<And>st j q. core_inv st \<Longrightarrow> activeJobs st < MAX_CONCURRENT_JOBS \<Longrightarrow>
       queue st = j # q \<Longrightarrow> j < length (heap st) \<Longrightarrow> files (heap st ! j) \<noteq> [] \<Longrightarrow>
       P st (admit_job j q st)"
  shows "P st (runQueue st)"
  using assms(1)
proof (induction "queue st" arbitrary: st)
  case Nil
  then show ?case using stop [of st] by (simp add: runQueue_empty)
next
  case (Cons j q)
  from Cons.hyps(2) have qs: "queue st = j # q" by simp
  from Cons.prems have qu: "inv_queue st" and aw: "inv_await st" by (simp_all add: core_inv_def)
  note h = queue_head [OF qu aw qs]
  show ?case
  proof (cases "activeJobs st \<ge> MAX_CONCURRENT_JOBS")
    case True
    then show ?thesis using stop [OF Cons.prems] by (simp add: runQueue_full)
  next
    case False
    then have a: "activeJobs st < MAX_CONCURRENT_JOBS" by simp
    show ?thesis
    proof (cases "files (heap st ! j) = []")
      case True
      have c: "core_inv (skip_job j q st)" by (rule core_inv_skip [OF Cons.prems qs True])
      have "P (skip_job j q st) (runQueue (skip_job j q st))"
        by (rule Cons.hyps(1)) (simp_all add: c)
      from skip [OF Cons.prems a qs h(1) True c this] show ?thesis
        by (simp add: runQueue_skip [OF a qs h(1) True])
    next
      case False
      from admit [OF Cons.prems a qs h(1) False] show ?thesis
        by (simp add: runQueue_admit [OF a qs h(1) False])
    qed
  qed
qed

lemma runQueue_fields:
  assumes "core_inv st"
  shows "jobs (runQueue st) = jobs st \<and> dirs (runQueue st) = dirs st \<and>
         timers (runQueue st) = timers st \<and> length (heap (runQueue st)) = length (heap st)"
  using assms by (induction rule: runQueue_induct) simp_all

lemma runQueue_heap_frame:
  assumes "core_inv st" and "j \<notin> set (queue st)"
  shows "heap (runQueue st) ! j = heap st ! j \<and>
         map_of (awaiting (runQueue st)) j = map_of (awaiting st) j \<and>
         j \<notin> set (queue (runQueue st))"
  using assms
proof (induction rule: runQueue_induct)
  case (stop st)
  then show ?case by simp
next
  case (skip st j' q)
  then have "j \<noteq> j'" and "j \<notin> set q" by auto
  with skip show ?case by simp
next
  case (admit st j' q)
  then have "j \<noteq> j'" and "j \<notin> set q" by auto
  then show ?case by (simp add: update_conv')
qed

lemma runQueue_busy:
  assumes "core_inv st" and "length (queue st) \<le> 1 \<or> activeJobs st \<ge> 1"
  shows "inv_busy (runQueue st)"
  using assms
proof (induction rule: runQueue_induct)
  case (stop st)
  then show ?case by (auto simp: inv_busy_def)
next
  case (skip st j q)
  then show ?case by auto
next
  case (admit st j q)
  then show ?case by (auto simp: inv_busy_def MAX_CONCURRENT_JOBS_def)
qed



lemma inv_queue_frame:
  assumes "inv_queue st" and "queue st' = queue st"
    and "length (heap st') = length (heap st)"
    and "\<And>j'. j' \<in> set (queue st) \<Longrightarrow> heap st' ! j' = heap st ! j'"
  shows "inv_queue st'"
  using assms by (simp add: inv_queue_def)

lemma ensure_simps [simp]:
  "heap (ensure d st) = heap st" "jobs (ensure d st) = jobs st" "queue (ensure d st) = queue st"
  "activeJobs (ensure d st) = activeJobs st" "awaiting (ensure d st) = awaiting st"
  "timers (ensure d st) = timers st"
  "dirs (ensure d st) = dirs st \<union> set (tl (prefixes d))"
  by (simp_all add: ensure_def)

lemma createJob_simps [simp]:
  "heap (createJob jobId st) =
     heap st @ [\<lparr>job_id = jobId, job_status = QUEUED, files = [],
                 uploadDir = BASE_DIR @ [jobId, ''uploads''],
                 outputDir = BASE_DIR @ [jobId, ''outputs'']\<rparr>]"
  "jobs (createJob jobId st) = AList.update jobId (length (heap st)) (jobs st)"
  "queue (createJob jobId st) = queue st"
  "activeJobs (createJob jobId st) = activeJobs st"
  "awaiting (createJob jobId st) = awaiting st"
  "timers (createJob jobId st) = timers st @ [(jobId, BASE_DIR @ [jobId])]"
  "dirs (createJob jobId st) =
     dirs st \<union> set (tl (prefixes (BASE_DIR @ [jobId, ''uploads''])))
             \<union> set (tl (prefixes (BASE_DIR @ [jobId, ''outputs''])))"
  by (simp_all add: createJob_def Let_def)

lemma core_inv_createJob:
  assumes "core_inv st"
  shows "core_inv (createJob jobId st)"
proof -
  from assms have c: "inv_count st" and qu: "inv_queue st" and aw: "inv_await st"
    and fi: "inv_files st" and jo: "inv_jobs st"
    by (simp_all add: core_inv_def)
  have 1: "inv_count (createJob jobId st)"
    using c by (simp add: inv_count_def count_processing_def)
  have 2: "inv_queue (createJob jobId st)"
    using qu by (auto simp: inv_queue_def nth_append)
  have 3: "inv_await (createJob jobId st)"
  proof (rule inv_await_frame [OF aw])
    fix j' i assume "map_of (awaiting (createJob jobId st)) j' = Some i"
    then have m: "map_of (awaiting st) j' = Some i" by simp
    with aw have "j' < length (heap st)" by (simp add: inv_await_def)
    with m show "map_of (awaiting st) j' = Some i \<and> heap (createJob jobId st) ! j' = heap st ! j'"
      by (simp add: nth_append)
  qed simp
  have 4: "inv_files (createJob jobId st)"
    using fi by (auto simp: inv_files_def)
  have 5: "inv_jobs (createJob jobId st)"
    using jo by (auto simp: inv_jobs_def update_conv' less_Suc_eq)
  from 1 2 3 4 5 show ?thesis by (simp add: core_inv_def)
qed

text \<open>The state in which the upload route calls \<open>runQueue\<close>.\<close>

lemma core_inv_upload:
  fixes jobId :: string and fs :: "(string \<times> string) list"
  assumes "core_inv st"
  defines "st1 \<equiv> createJob jobId st"
  defines "j \<equiv> length (heap st1) - 1"
  defines "st2 \<equiv> update_job j (\<lambda>jb. jb\<lparr>files := files jb @ map new_file fs\<rparr>) st1"
  shows "core_inv (st2\<lparr>queue := queue st2 @ [j]\<rparr>)"
proof -
  have j: "j = length (heap st)" by (simp add: j_def st1_def)
  have c1: "core_inv st1" unfolding st1_def by (rule core_inv_createJob [OF assms(1)])
  then have c: "inv_count st1" and qu: "inv_queue st1" and aw: "inv_await st1"
    and fi: "inv_files st1" and jo: "inv_jobs st1"
    by (simp_all add: core_inv_def)
  have len: "length (heap st1) = Suc (length (heap st))" by (simp add: st1_def)
  have new: "heap st2 ! j = \<lparr>job_id = jobId, job_status = QUEUED, files = map new_file fs,
                 uploadDir = BASE_DIR @ [jobId, ''uploads''],
                 outputDir = BASE_DIR @ [jobId, ''outputs'']\<rparr>"
    by (simp add: st2_def st1_def j)
  have old: "heap st2 ! j' = heap st1 ! j'" if "j' \<noteq> j" for j'
    using that by (simp add: st2_def)
  have inq: "j' < j" if "j' \<in> set (queue st)" for j'
    using assms(1) that by (simp add: core_inv_def inv_queue_def j)
  have inw: "j' < j" if "map_of (awaiting st) j' = Some i" for j' i
    using assms(1) that by (simp add: core_inv_def inv_await_def j)
  have 1: "inv_count (st2\<lparr>queue := queue st2 @ [j]\<rparr>)"
    using c count_list_update [of j "heap st1" "\<lambda>jb. job_status jb = PROCESSING"
        "(heap st1 ! j)\<lparr>files := files (heap st1 ! j) @ map new_file fs\<rparr>"]
    by (simp add: inv_count_def count_processing_def st2_def len j)
  have 2: "inv_queue (st2\<lparr>queue := queue st2 @ [j]\<rparr>)"
    unfolding inv_queue_def
  proof (intro conjI)
    from qu have "distinct (queue st)" by (simp add: inv_queue_def st1_def)
    moreover have "j \<notin> set (queue st)" using inq by auto
    ultimately show "distinct (queue (st2\<lparr>queue := queue st2 @ [j]\<rparr>))"
      by (simp add: st2_def st1_def)
    show "\<forall>j'\<in>set (queue (st2\<lparr>queue := queue st2 @ [j]\<rparr>)).
            j' < length (heap (st2\<lparr>queue := queue st2 @ [j]\<rparr>)) \<and>
            job_status (heap (st2\<lparr>queue := queue st2 @ [j]\<rparr>) ! j') = QUEUED \<and>
            (\<forall>f\<in>set (files (heap (st2\<lparr>queue := queue st2 @ [j]\<rparr>) ! j')). file_status f = QUEUED)"
    proof
      fix j' assume "j' \<in> set (queue (st2\<lparr>queue := queue st2 @ [j]\<rparr>))"
      then have "j' = j \<or> j' \<in> set (queue st)" by (auto simp: st2_def st1_def)
      then show "j' < length (heap (st2\<lparr>queue := queue st2 @ [j]\<rparr>)) \<and>
            job_status (heap (st2\<lparr>queue := queue st2 @ [j]\<rparr>) ! j') = QUEUED \<and>
            (\<forall>f\<in>set (files (heap (st2\<lparr>queue := queue st2 @ [j]\<rparr>) ! j')). file_status f = QUEUED)"
      proof
        assume "j' = j"
        then show ?thesis using new by (auto simp: st2_def len j new_file_def)
      next
        assume q: "j' \<in> set (queue st)"
        then have ne: "j' \<noteq> j" using inq by auto
        from qu q have "j' < length (heap st1) \<and> job_status (heap st1 ! j') = QUEUED \<and>
            (\<forall>f\<in>set (files (heap st1 ! j')). file_status f = QUEUED)"
          by (simp add: inv_queue_def st1_def)
        then show ?thesis using old [OF ne] by (simp add: st2_def)
      qed
    qed
  qed
  have 3: "inv_await (st2\<lparr>queue := queue st2 @ [j]\<rparr>)"
  proof (rule inv_await_frame [OF aw])
    fix j' i assume "map_of (awaiting (st2\<lparr>queue := queue st2 @ [j]\<rparr>)) j' = Some i"
    then have m: "map_of (awaiting st) j' = Some i" by (simp add: st2_def st1_def)
    with inw have "j' \<noteq> j" by auto
    with m show "map_of (awaiting st1) j' = Some i \<and>
        heap (st2\<lparr>queue := queue st2 @ [j]\<rparr>) ! j' = heap st1 ! j'"
      using old by (simp add: st1_def)
  qed (simp add: st2_def)
  have 4: "inv_files (st2\<lparr>queue := queue st2 @ [j]\<rparr>)"
    unfolding inv_files_def
  proof
    fix jb assume "jb \<in> set (heap (st2\<lparr>queue := queue st2 @ [j]\<rparr>))"
    then have "jb = (heap st1 ! j)\<lparr>files := files (heap st1 ! j) @ map new_file fs\<rparr> \<or>
        jb \<in> set (heap st1)"
      using set_update_subset_insert [of "heap st1" j] by (auto simp: st2_def)
    then show "in_upload_order (map file_status (files jb))"
    proof
      assume "jb = (heap st1 ! j)\<lparr>files := files (heap st1 ! j) @ map new_file fs\<rparr>"
      then have "map file_status (files jb) = map (\<lambda>f. QUEUED) fs"
        by (simp add: st1_def j new_file_def comp_def)
      then show ?thesis by (simp add: in_upload_order_queued list_all_iff)
    next
      assume "jb \<in> set (heap st1)"
      with fi show ?thesis by (simp add: inv_files_def)
    qed
  qed
  have 5: "inv_jobs (st2\<lparr>queue := queue st2 @ [j]\<rparr>)"
    using jo by (simp add: inv_jobs_def st2_def)
  from 1 2 3 4 5 show ?thesis by (simp add: core_inv_def)
qed

lemma handle_request_inv:
  assumes "core_inv st" and "inv_busy st"
  shows "core_inv (handle_request jobId req st) \<and> inv_busy (handle_request jobId req st)"
proof (cases req)
  case (Upload fs)
  let ?st2 = "update_job (length (heap (createJob jobId st)) - 1)
      (\<lambda>jb. jb\<lparr>files := files jb @ map new_file fs\<rparr>) (createJob jobId st)"
  let ?st3 = "?st2\<lparr>queue := queue ?st2 @ [length (heap (createJob jobId st)) - 1]\<rparr>"
  have c: "core_inv ?st3" by (rule core_inv_upload [OF assms(1)])
  have "length (queue ?st3) \<le> 1 \<or> activeJobs ?st3 \<ge> 1"
    using assms(2) by (auto simp: inv_busy_def MAX_CONCURRENT_JOBS_def)
  from runQueue_core [OF c] runQueue_busy [OF c this] show ?thesis
    using Upload by (simp add: handle_request_def Let_def)
qed (use assms core_inv_createJob [OF assms(1), of jobId] in
      \<open>simp_all add: handle_request_def inv_busy_def\<close>)


lemma update_file_simps [simp]:
  "heap (update_file j i f st) =
     (heap st)[j := (heap st ! j)\<lparr>files := (files (heap st ! j))[i := f (files (heap st ! j) ! i)]\<rparr>]"
  "jobs (update_file j i f st) = jobs st"
  "queue (update_file j i f st) = queue st"
  "activeJobs (update_file j i f st) = activeJobs st"
  "awaiting (update_file j i f st) = awaiting st"
  "dirs (update_file j i f st) = dirs st"
  "timers (update_file j i f st) = timers st"
  by (simp_all add: update_file_def)

text \<open>What the invariants say about a job with a suspended call.\<close>

lemma awaiting_job:
  assumes "core_inv st" and "map_of (awaiting st) j = Some i"
  shows "j < length (heap st)" and "job_status (heap st ! j) = PROCESSING"
    and "i < length (files (heap st ! j))" and "file_pattern i (files (heap st ! j))"
    and "j \<notin> set (queue st)"
proof -
  from assms show h: "j < length (heap st)" "job_status (heap st ! j) = PROCESSING"
    "i < length (files (heap st ! j))" "file_pattern i (files (heap st ! j))"
    by (simp_all add: core_inv_def inv_await_def)
  show "j \<notin> set (queue st)"
  proof
    assume "j \<in> set (queue st)"
    with assms(1) have "job_status (heap st ! j) = QUEUED" by (simp add: core_inv_def inv_queue_def)
    with h(2) show False by simp
  qed
qed

lemma core_inv_leave:
  assumes "core_inv st" and "map_of (awaiting st) j = Some i" and "s \<noteq> PROCESSING"
  shows "core_inv (leave_job j s st)"
proof -
  from assms(1) have c: "inv_count st" and qu: "inv_queue st" and aw: "inv_await st"
    and fi: "inv_files st" and jo: "inv_jobs st"
    by (simp_all add: core_inv_def)
  note h = awaiting_job [OF assms(1,2)]
  have 1: "inv_count (leave_job j s st)"
    using c h(2) assms(3) count_list_update [OF h(1), of "\<lambda>jb. job_status jb = PROCESSING"
        "(heap st ! j)\<lparr>job_status := s\<rparr>"]
    by (simp add: inv_count_def count_processing_def)
  have 2: "inv_queue (leave_job j s st)"
  proof (rule inv_queue_frame [OF qu])
    fix j' assume "j' \<in> set (queue st)"
    with h(5) have "j' \<noteq> j" by auto
    then show "heap (leave_job j s st) ! j' = heap st ! j'" by simp
  qed simp_all
  have 3: "inv_await (leave_job j s st)"
  proof (rule inv_await_frame [OF aw])
    fix j' i' assume "map_of (awaiting (leave_job j s st)) j' = Some i'"
    then have "j' \<noteq> j \<and> map_of (awaiting st) j' = Some i'"
      by (auto simp: delete_conv' split: if_splits)
    then show "map_of (awaiting st) j' = Some i' \<and> heap (leave_job j s st) ! j' = heap st ! j'"
      by simp
  qed simp
  have 4: "inv_files (leave_job j s st)"
    unfolding inv_files_def
  proof
    fix jb assume "jb \<in> set (heap (leave_job j s st))"
    then have "jb = (heap st ! j)\<lparr>job_status := s\<rparr> \<or> jb \<in> set (heap st)"
      using set_update_subset_insert [of "heap st" j] by auto
    moreover have "heap st ! j \<in> set (heap st)" using h(1) by simp
    ultimately show "in_upload_order (map file_status (files jb))"
      using fi by (auto simp: inv_files_def)
  qed
  have 5: "inv_jobs (leave_job j s st)"
    using jo by (simp add: inv_jobs_def)
  from 1 2 3 4 5 show ?thesis by (simp add: core_inv_def)
qed

text \<open>Assigning files to a job that is neither queued nor in work.\<close>

lemma core_inv_files:
  assumes "core_inv st" and "j < length (heap st)" and "map_of (awaiting st) j = None"
    and "j \<notin> set (queue st)" and "in_upload_order (map file_status fs)"
  shows "core_inv (update_job j (\<lambda>jb. jb\<lparr>files := fs\<rparr>) st)"
proof -
  from assms(1) have c: "inv_count st" and qu: "inv_queue st" and aw: "inv_await st"
    and fi: "inv_files st" and jo: "inv_jobs st"
    by (simp_all add: core_inv_def)
  let ?st = "update_job j (\<lambda>jb. jb\<lparr>files := fs\<rparr>) st"
  have 1: "inv_count ?st"
    using c count_list_update [OF assms(2), of "\<lambda>jb. job_status jb = PROCESSING"
        "(heap st ! j)\<lparr>files := fs\<rparr>"]
    by (simp add: inv_count_def count_processing_def)
  have 2: "inv_queue ?st"
  proof (rule inv_queue_frame [OF qu])
    fix j' assume "j' \<in> set (queue st)"
    with assms(4) have "j' \<noteq> j" by auto
    then show "heap ?st ! j' = heap st ! j'" by simp
  qed simp_all
  have 3: "inv_await ?st"
  proof (rule inv_await_frame [OF aw])
    fix j' i' assume m: "map_of (awaiting ?st) j' = Some i'"
    with assms(3) have "j' \<noteq> j" by auto
    with m show "map_of (awaiting st) j' = Some i' \<and> heap ?st ! j' = heap st ! j'"
      by simp
  qed simp
  have 4: "inv_files ?st"
    unfolding inv_files_def
  proof
    fix jb assume "jb \<in> set (heap ?st)"
    then have "jb = (heap st ! j)\<lparr>files := fs\<rparr> \<or> jb \<in> set (heap st)"
      using set_update_subset_insert [of "heap st" j] by auto
    then show "in_upload_order (map file_status (files jb))"
      using fi assms(5) by (auto simp: inv_files_def)
  qed
  have 5: "inv_jobs ?st"
    using jo by (simp add: inv_jobs_def)
  from 1 2 3 4 5 show ?thesis by (simp add: core_inv_def)
qed

lemma file_pattern_last:
  assumes "file_pattern i fs" and "i < length fs" and "\<not> Suc i < length fs"
  shows "in_upload_order (map file_status (fs[i := f\<lparr>file_status := DONE\<rparr>]))"
proof (rule in_upload_order_done)
  have "file_status (fs[i := f\<lparr>file_status := DONE\<rparr>] ! k) = DONE" if "k < length fs" for k
    using assms that by (cases "k = i") (auto simp: file_pattern_def)
  then show "list_all (\<lambda>s. s = DONE) (map file_status (fs[i := f\<lparr>file_status := DONE\<rparr>]))"
    by (simp add: list_all_length)
qed

lemma file_pattern_next:
  assumes "file_pattern i fs" and "Suc i < length fs"
  shows "file_pattern (Suc i)
           ((fs[i := f\<lparr>file_status := DONE\<rparr>])
              [Suc i := (fs[i := f\<lparr>file_status := DONE\<rparr>] ! Suc i)\<lparr>file_status := PROCESSING\<rparr>])"
  using assms by (auto simp: file_pattern_def nth_list_update)


lemma core_inv_next_file:
  fixes name :: string
  assumes "core_inv st" and "map_of (awaiting st) j = Some i"
    and "Suc i < length (files (heap st ! j))"
  defines "st1 \<equiv> update_file j i (\<lambda>f. f\<lparr>outputName := Some name, file_status := DONE\<rparr>) st"
  defines "st' \<equiv> (update_file j (Suc i) (\<lambda>f. f\<lparr>file_status := PROCESSING\<rparr>) st1)
                   \<lparr>awaiting := AList.update j (Suc i) (awaiting st1)\<rparr>"
  shows "core_inv st'"
proof -
  from assms(1) have c: "inv_count st" and qu: "inv_queue st" and aw: "inv_await st"
    and fi: "inv_files st" and jo: "inv_jobs st"
    by (simp_all add: core_inv_def)
  note h = awaiting_job [OF assms(1,2)]
  let ?fs = "files (heap st ! j)"
  let ?fs1 = "?fs[i := (?fs ! i)\<lparr>outputName := Some name, file_status := DONE\<rparr>]"
  let ?fs2 = "?fs1[Suc i := (?fs1 ! Suc i)\<lparr>file_status := PROCESSING\<rparr>]"
  let ?jb = "(heap st ! j)\<lparr>files := ?fs2\<rparr>"
  have hp: "heap st' = (heap st)[j := ?jb]"
    using h(1) by (simp add: st'_def st1_def)
  have other: "queue st' = queue st" "activeJobs st' = activeJobs st" "jobs st' = jobs st"
    "awaiting st' = AList.update j (Suc i) (awaiting st)"
    by (simp_all add: st'_def st1_def)
  have pat: "file_pattern (Suc i) ?fs2"
    using file_pattern_next [OF h(4) assms(3), of "(?fs ! i)\<lparr>outputName := Some name\<rparr>"]
    by simp
  have 1: "inv_count st'"
    using c h(2) count_list_update [OF h(1), of "\<lambda>jb. job_status jb = PROCESSING" ?jb]
    by (simp add: inv_count_def count_processing_def hp other)
  have 2: "inv_queue st'"
  proof (rule inv_queue_frame [OF qu])
    fix j' assume "j' \<in> set (queue st)"
    with h(5) have "j' \<noteq> j" by auto
    then show "heap st' ! j' = heap st ! j'" by (simp add: hp)
  qed (simp_all add: hp other)
  have 3: "inv_await st'"
    unfolding inv_await_def
  proof (intro allI impI)
    fix j' i' assume m: "map_of (awaiting st') j' = Some i'"
    show "j' < length (heap st') \<and> job_status (heap st' ! j') = PROCESSING \<and>
          i' < length (files (heap st' ! j')) \<and> file_pattern i' (files (heap st' ! j'))"
    proof (cases "j' = j")
      case True
      with m have "i' = Suc i" by (simp add: other update_conv')
      with True h(1,2) pat assms(3) show ?thesis by (simp add: hp)
    next
      case False
      with m have "map_of (awaiting st) j' = Some i'" by (simp add: other update_conv')
      with aw False show ?thesis by (simp add: inv_await_def hp)
    qed
  qed
  have 4: "inv_files st'"
    unfolding inv_files_def
  proof
    fix jb assume "jb \<in> set (heap st')"
    then have "jb = ?jb \<or> jb \<in> set (heap st)"
      using set_update_subset_insert [of "heap st" j ?jb] by (auto simp: hp)
    then show "in_upload_order (map file_status (files jb))"
      using file_pattern_in_order [OF pat] fi by (auto simp: inv_files_def)
  qed
  have 5: "inv_jobs st'"
    using jo by (simp add: inv_jobs_def hp other)
  from 1 2 3 4 5 show ?thesis by (simp add: core_inv_def)
qed

lemma leave_after_last_file:
  assumes "j < length (heap st)"
  shows "leave_job j DONE (update_file j i g st) =
         update_job j (\<lambda>jb. jb\<lparr>files := (files (heap st ! j))[i := g (files (heap st ! j) ! i)]\<rparr>)
           (leave_job j DONE st)"
proof -
  let ?F = "(files (heap st ! j))[i := g (files (heap st ! j) ! i)]"
  have e: "(heap st ! j)\<lparr>files := ?F, job_status := DONE\<rparr> =
        (heap st ! j)\<lparr>job_status := DONE, files := ?F\<rparr>"
    by (rule job.equality) simp_all
  show ?thesis
    using assms by (intro server.equality) (simp_all add: e)
qed

lemma core_inv_last_file:
  assumes "core_inv st" and "map_of (awaiting st) j = Some i"
    and "\<not> Suc i < length (files (heap st ! j))"
  shows "core_inv (leave_job j DONE
           (update_file j i (\<lambda>f. f\<lparr>outputName := Some name, file_status := DONE\<rparr>) st))"
proof -
  note h = awaiting_job [OF assms(1,2)]
  have c: "core_inv (leave_job j DONE st)"
    by (rule core_inv_leave [OF assms(1,2)]) simp
  have o: "in_upload_order (map file_status
      ((files (heap st ! j))[i := (files (heap st ! j) ! i)\<lparr>outputName := Some name, file_status := DONE\<rparr>]))"
    using file_pattern_last [OF h(4) h(3) assms(3), of "(files (heap st ! j) ! i)\<lparr>outputName := Some name\<rparr>"]
    by simp
  have "core_inv (update_job j (\<lambda>jb. jb\<lparr>files := (files (heap st ! j))
      [i := (files (heap st ! j) ! i)\<lparr>outputName := Some name, file_status := DONE\<rparr>]\<rparr>)
      (leave_job j DONE st))"
    by (rule core_inv_files [OF c _ _ _ o]) (use h in \<open>simp_all add: delete_conv'\<close>)
  then show ?thesis by (simp add: leave_after_last_file [OF h(1)])
qed

lemma settle_inv:
  assumes "core_inv st" and "inv_busy st" and "settle j out st = Some st'"
  shows "core_inv st' \<and> inv_busy st'"
proof -
  from assms(3) obtain i where m: "map_of (awaiting st) j = Some i"
    by (auto simp: settle_def split: option.splits)
  note h = awaiting_job [OF assms(1) m]
  have room: "length (queue st) \<le> 1 \<or> activeJobs st - 1 \<ge> 1"
    using assms(2) by (auto simp: inv_busy_def MAX_CONCURRENT_JOBS_def)
  show ?thesis
  proof (cases out)
    case Failed
    have c: "core_inv (leave_job j ERROR st)"
      by (rule core_inv_leave [OF assms(1) m]) simp
    have st': "st' = runQueue (leave_job j ERROR st)"
      using assms(3) m Failed by (simp add: settle_def leave_job_def)
    from runQueue_core [OF c] runQueue_busy [OF c] room show ?thesis
      by (simp add: st')
  next
    case (Completed name)
    let ?st1 = "update_file j i (\<lambda>f. f\<lparr>outputName := Some name, file_status := DONE\<rparr>) st"
    have len: "length (files (heap ?st1 ! j)) = length (files (heap st ! j))"
      using h(1) by simp
    show ?thesis
    proof (cases "Suc i < length (files (heap st ! j))")
      case True
      have st': "st' = (update_file j (Suc i) (\<lambda>f. f\<lparr>file_status := PROCESSING\<rparr>) ?st1)
                   \<lparr>awaiting := AList.update j (Suc i) (awaiting ?st1)\<rparr>"
        using assms(3) m Completed True len by (simp add: settle_def Let_def)
      have "core_inv st'" unfolding st' by (rule core_inv_next_file [OF assms(1) m True])
      moreover have "inv_busy st'" using assms(2) by (simp add: st' inv_busy_def)
      ultimately show ?thesis by simp
    next
      case False
      have st': "st' = runQueue (leave_job j DONE ?st1)"
        using assms(3) m Completed False len by (simp add: settle_def Let_def leave_job_def)
      have c: "core_inv (leave_job j DONE ?st1)"
        by (rule core_inv_last_file [OF assms(1) m False])
      have "length (queue (leave_job j DONE ?st1)) \<le> 1 \<or> activeJobs (leave_job j DONE ?st1) \<ge> 1"
        using room by simp
      from runQueue_core [OF c] runQueue_busy [OF c this] show ?thesis
        by (simp add: st')
    qed
  qed
qed

lemma expire_inv:
  assumes "core_inv st" and "inv_busy st" and "expire st = Some st'"
  shows "core_inv st' \<and> inv_busy st'"
proof -
  from assms(3) obtain jobId jobDir ts where t: "timers st = (jobId, jobDir) # ts"
    and st': "st' = st\<lparr>timers := ts, dirs := Set.filter (\<lambda>p. \<not> prefix jobDir p) (dirs st),
                       jobs := AList.delete jobId (jobs st)\<rparr>"
    by (auto simp: expire_def split: list.splits)
  have "inv_jobs st'"
    using assms(1) by (auto simp: core_inv_def inv_jobs_def st' delete_conv' split: if_splits)
  then show ?thesis
    using assms(1,2)
    by (simp add: core_inv_def inv_busy_def inv_count_def inv_queue_def inv_await_def
        inv_files_def count_processing_def st')
qed

lemma init_simps [simp]:
  "heap init = []" "jobs init = []" "queue init = []" "activeJobs init = 0"
  "awaiting init = []" "timers init = []"
  by (simp_all add: init_def)

lemma init_inv: "core_inv init \<and> inv_busy init"
  by (simp add: core_inv_def inv_busy_def inv_count_def inv_queue_def inv_await_def
      inv_files_def inv_jobs_def count_processing_def MAX_CONCURRENT_JOBS_def)

lemma step_inv:
  assumes "core_inv st \<and> inv_busy st" and "step e st = Some st'"
  shows "core_inv st' \<and> inv_busy st'"
proof (cases e)
  case (Request jobId req)
  with assms(2) have "st' = handle_request jobId req st" by (simp add: step_def)
  with handle_request_inv [of st jobId req] assms(1) show ?thesis by simp
next
  case (Settle j out)
  with assms(2) have "settle j out st = Some st'" by (simp add: step_def)
  with settle_inv [of st j out st'] assms(1) show ?thesis by simp
next
  case Expire
  with assms(2) have "expire st = Some st'" by (simp add: step_def)
  with expire_inv [of st st'] assms(1) show ?thesis by simp
qed

lemma reachable_inv: "reachable st \<Longrightarrow> core_inv st \<and> inv_busy st"
proof (induction rule: reachable.induct)
  case reachable_init
  show ?case by (rule init_inv)
next
  case (reachable_step st e st')
  from step_inv [OF reachable_step.IH reachable_step.hyps(2)] show ?case .
qed

lemma run_reachable: "reachable st \<Longrightarrow> run es st = Some st' \<Longrightarrow> reachable st'"
proof (induction es arbitrary: st)
  case Nil
  then show ?case by simp
next
  case (Cons e es)
  then obtain st1 where s: "step e st = Some st1" and r: "run es st1 = Some st'"
    by (auto split: option.splits)
  from Cons.IH [OF reachable_step [OF Cons.prems(1) s] r] show ?case .
qed

subsection \<open>Jobs that have ended, and the failure of a file\<close>

lemma runQueue_identity:
  assumes "core_inv st" and "j < length (heap st)"
  shows "job_id (heap (runQueue st) ! j) = job_id (heap st ! j) \<and>
         uploadDir (heap (runQueue st) ! j) = uploadDir (heap st ! j) \<and>
         outputDir (heap (runQueue st) ! j) = outputDir (heap st ! j)"
  using assms
proof (induction rule: runQueue_induct)
  case (stop st)
  then show ?case by simp
next
  case (skip st j' q)
  then show ?case by (cases "j = j'") simp_all
next
  case (admit st j' q)
  then show ?case by (cases "j = j'") simp_all
qed

lemma step_heap_length:
  assumes "core_inv st" and "step e st = Some st'"
  shows "length (heap st) \<le> length (heap st')"
proof (cases e)
  case (Request jobId req)
  show ?thesis
  proof (cases req)
    case (Upload fs)
    let ?st2 = "update_job (length (heap (createJob jobId st)) - 1)
        (\<lambda>jb. jb\<lparr>files := files jb @ map new_file fs\<rparr>) (createJob jobId st)"
    let ?st3 = "?st2\<lparr>queue := queue ?st2 @ [length (heap (createJob jobId st)) - 1]\<rparr>"
    have c: "core_inv ?st3" by (rule core_inv_upload [OF assms(1)])
    from runQueue_fields [OF c] assms(2) Request Upload show ?thesis
      by (simp add: step_def handle_request_def Let_def)
  qed (use assms(2) Request in \<open>auto simp: step_def handle_request_def\<close>)
next
  case (Settle j out)
  with assms(2) have s: "settle j out st = Some st'" by (simp add: step_def)
  then obtain i where m: "map_of (awaiting st) j = Some i"
    by (auto simp: settle_def split: option.splits)
  note h = awaiting_job [OF assms(1) m]
  show ?thesis
  proof (cases out)
    case Failed
    have c: "core_inv (leave_job j ERROR st)" by (rule core_inv_leave [OF assms(1) m]) simp
    from runQueue_fields [OF c] s m Failed show ?thesis
      by (simp add: settle_def leave_job_def [symmetric])
  next
    case (Completed name)
    let ?st1 = "update_file j i (\<lambda>f. f\<lparr>outputName := Some name, file_status := DONE\<rparr>) st"
    have len: "length (files (heap ?st1 ! j)) = length (files (heap st ! j))"
      using h(1) by simp
    show ?thesis
    proof (cases "Suc i < length (files (heap st ! j))")
      case True
      with s m Completed len show ?thesis by (auto simp: settle_def Let_def)
    next
      case False
      have c: "core_inv (leave_job j DONE ?st1)" by (rule core_inv_last_file [OF assms(1) m False])
      have "st' = runQueue (leave_job j DONE ?st1)"
        using s m Completed False len by (simp add: settle_def Let_def leave_job_def)
      with runQueue_fields [OF c] show ?thesis by simp
    qed
  qed
next
  case Expire
  with assms(2) show ?thesis by (auto simp: step_def expire_def split: list.splits)
qed

text \<open>A job that is \<^verbatim>\<open>DONE\<close> or \<^verbatim>\<open>ERROR\<close> is never touched again.\<close>

lemma step_terminal:
  assumes "core_inv st" and "step e st = Some st'"
    and "j < length (heap st)" and "job_status (heap st ! j) \<in> {DONE, ERROR}"
  shows "heap st' ! j = heap st ! j"
proof -
  from assms(1) have qu: "inv_queue st" by (simp add: core_inv_def)
  have nq: "j \<notin> set (queue st)"
  proof
    assume "j \<in> set (queue st)"
    with qu have "job_status (heap st ! j) = QUEUED" by (simp add: inv_queue_def)
    with assms(4) show False by simp
  qed
  have nw: "j' \<noteq> j" if "map_of (awaiting st) j' = Some i" for j' i
    using awaiting_job(2) [OF assms(1) that] assms(4) by auto
  show ?thesis
  proof (cases e)
    case (Request jobId req)
    show ?thesis
    proof (cases req)
      case (Upload fs)
      let ?st2 = "update_job (length (heap (createJob jobId st)) - 1)
          (\<lambda>jb. jb\<lparr>files := files jb @ map new_file fs\<rparr>) (createJob jobId st)"
      let ?st3 = "?st2\<lparr>queue := queue ?st2 @ [length (heap (createJob jobId st)) - 1]\<rparr>"
      have c: "core_inv ?st3" by (rule core_inv_upload [OF assms(1)])
      have "j \<notin> set (queue ?st3)" using nq assms(3) by simp
      from runQueue_heap_frame [OF c this] have "heap (runQueue ?st3) ! j = heap ?st3 ! j"
        by simp
      also have "\<dots> = heap st ! j" using assms(3) by (simp add: nth_append)
      finally show ?thesis
        using assms(2) Request Upload by (simp add: step_def handle_request_def Let_def)
    qed (use assms(2,3) Request in \<open>auto simp: step_def handle_request_def nth_append\<close>)
  next
    case (Settle j' out)
    with assms(2) have s: "settle j' out st = Some st'" by (simp add: step_def)
    then obtain i where m: "map_of (awaiting st) j' = Some i"
      by (auto simp: settle_def split: option.splits)
    note h = awaiting_job [OF assms(1) m]
    have ne: "j' \<noteq> j" by (rule nw [OF m])
    show ?thesis
    proof (cases out)
      case Failed
      have c: "core_inv (leave_job j' ERROR st)" by (rule core_inv_leave [OF assms(1) m]) simp
      have "j \<notin> set (queue (leave_job j' ERROR st))" using nq by simp
      from runQueue_heap_frame [OF c this] ne s m Failed show ?thesis
        by (simp add: settle_def leave_job_def [symmetric])
    next
      case (Completed name)
      let ?st1 = "update_file j' i (\<lambda>f. f\<lparr>outputName := Some name, file_status := DONE\<rparr>) st"
      have len: "length (files (heap ?st1 ! j')) = length (files (heap st ! j'))"
        using h(1) by simp
      show ?thesis
      proof (cases "Suc i < length (files (heap st ! j'))")
        case True
        with s m Completed len ne show ?thesis by (auto simp: settle_def Let_def)
      next
        case False
        have c: "core_inv (leave_job j' DONE ?st1)"
          by (rule core_inv_last_file [OF assms(1) m False])
        have st': "st' = runQueue (leave_job j' DONE ?st1)"
          using s m Completed False len by (simp add: settle_def Let_def leave_job_def)
        have "j \<notin> set (queue (leave_job j' DONE ?st1))" using nq by simp
        from runQueue_heap_frame [OF c this] ne show ?thesis by (simp add: st')
      qed
    qed
  next
    case Expire
    with assms(2) show ?thesis by (auto simp: step_def expire_def split: list.splits)
  qed
qed

lemma run_terminal:
  assumes "reachable st" and "run es st = Some st'"
    and "j < length (heap st)" and "job_status (heap st ! j) \<in> {DONE, ERROR}"
  shows "heap st' ! j = heap st ! j"
  using assms
proof (induction es arbitrary: st)
  case Nil
  then show ?case by simp
next
  case (Cons e es)
  then obtain st1 where s: "step e st = Some st1" and r: "run es st1 = Some st'"
    by (auto split: option.splits)
  from Cons.prems(1) have c: "core_inv st" by (simp add: reachable_inv)
  have e: "heap st1 ! j = heap st ! j" by (rule step_terminal [OF c s Cons.prems(3,4)])
  have l: "j < length (heap st1)" using step_heap_length [OF c s] Cons.prems(3) by simp
  from Cons.IH [OF reachable_step [OF Cons.prems(1) s] r l] e Cons.prems(4)
  show ?case by simp
qed

text \<open>The failure of the file that the call for job \<open>j\<close> awaits.\<close>

lemma settle_failed:
  assumes "core_inv st" and "map_of (awaiting st) j = Some i"
  shows "settle j Failed st = Some (runQueue (leave_job j ERROR st))"
    and "heap (runQueue (leave_job j ERROR st)) ! j = (heap st ! j)\<lparr>job_status := ERROR\<rparr>"
    and "map_of (awaiting (runQueue (leave_job j ERROR st))) j = None"
    and "j \<notin> set (queue (runQueue (leave_job j ERROR st)))"
proof -
  note h = awaiting_job [OF assms]
  show "settle j Failed st = Some (runQueue (leave_job j ERROR st))"
    using assms(2) by (simp add: settle_def leave_job_def)
  have c: "core_inv (leave_job j ERROR st)" by (rule core_inv_leave [OF assms]) simp
  have "j \<notin> set (queue (leave_job j ERROR st))" using h(5) by simp
  from runQueue_heap_frame [OF c this] h(1)
  show "heap (runQueue (leave_job j ERROR st)) ! j = (heap st ! j)\<lparr>job_status := ERROR\<rparr>"
    and "map_of (awaiting (runQueue (leave_job j ERROR st))) j = None"
    and "j \<notin> set (queue (runQueue (leave_job j ERROR st)))"
    by (simp_all add: delete_conv')
qed



subsection \<open>The claims about the queue and the requests\<close>

lemma busy_state_run: "run three_uploads init = Some busy_state"
proof -
  have "run three_uploads init \<noteq> None" by code_simp
  then show ?thesis by (auto simp: busy_state_def)
qed

lemma busy_state_reachable: "reachable busy_state"
  by (rule run_reachable [OF reachable_init busy_state_run])

lemma busy_state_facts:
  "activeJobs busy_state = 2" "queue busy_state = [2]"
  "map_of (awaiting busy_state) 0 = Some 0" "map_of (awaiting busy_state) 1 = Some 0"
  "count_processing busy_state = 2"
  by code_simp+

text \<open>
  C6. In every reachable state (the states between two turns of the event loop) the
  number of jobs whose status is \<^verbatim>\<open>PROCESSING\<close> is at most the limit
  \<^verbatim>\<open>MAX_CONCURRENT_JOBS\<close>, which is 2; and a call of \<^verbatim>\<open>runQueue\<close> when the limit is reached
  or when the queue is empty returns the state as it is.
\<close>

theorem processing_jobs_bounded:
  assumes "reachable st"
  shows "int (count_processing st) \<le> MAX_CONCURRENT_JOBS \<and> MAX_CONCURRENT_JOBS = 2 \<and>
         (activeJobs st \<ge> MAX_CONCURRENT_JOBS \<or> queue st = [] \<longrightarrow> runQueue st = st)"
proof -
  from reachable_inv [OF assms] have "inv_count st" by (simp add: core_inv_def)
  then have "int (count_processing st) \<le> MAX_CONCURRENT_JOBS" by (simp add: inv_count_def)
  moreover have "activeJobs st \<ge> MAX_CONCURRENT_JOBS \<or> queue st = [] \<longrightarrow> runQueue st = st"
    using runQueue_full [of st] runQueue_empty [of st] by blast
  ultimately show ?thesis by (simp add: MAX_CONCURRENT_JOBS_def)
qed

theorem processing_jobs_bounded_witness:
  "reachable busy_state \<and> count_processing busy_state = 2 \<and>
   int (count_processing busy_state) \<le> MAX_CONCURRENT_JOBS \<and>
   activeJobs busy_state \<ge> MAX_CONCURRENT_JOBS \<and> queue busy_state \<noteq> [] \<and>
   runQueue busy_state = busy_state"
  using processing_jobs_bounded [OF busy_state_reachable] busy_state_reachable busy_state_facts
  by (simp add: MAX_CONCURRENT_JOBS_def)





lemma status_cases: "s \<noteq> ERROR \<Longrightarrow> s \<in> {QUEUED, PROCESSING, DONE}"
  by (cases s) simp_all

text \<open>
  C9. In every reachable state of \<^verbatim>\<open>server.js\<close> the status of every file is \<^verbatim>\<open>QUEUED\<close>,
  \<^verbatim>\<open>PROCESSING\<close> or \<^verbatim>\<open>DONE\<close>, never \<^verbatim>\<open>ERROR\<close>. When the processing of the file \<open>i\<close> of job
  \<open>j\<close> fails, then after that turn and after any further run the job is \<^verbatim>\<open>ERROR\<close> and
  that file is still \<^verbatim>\<open>PROCESSING\<close>.
\<close>

theorem file_status_never_error:
  assumes "reachable st"
  shows "(\<forall>jb\<in>set (heap st). \<forall>f\<in>set (files jb). file_status f \<in> {QUEUED, PROCESSING, DONE}) \<and>
         (\<forall>j i es st'. map_of (awaiting st) j = Some i \<longrightarrow>
            run (Settle j Failed # es) st = Some st' \<longrightarrow>
            job_status (heap st' ! j) = ERROR \<and>
            file_status (files (heap st' ! j) ! i) = PROCESSING)"
proof (intro conjI ballI allI impI)
  from reachable_inv [OF assms] have c: "core_inv st" by simp
  {
    fix jb f assume jb: "jb \<in> set (heap st)" and f: "f \<in> set (files jb)"
    from c jb have "in_upload_order (map file_status (files jb))"
      by (simp add: core_inv_def inv_files_def)
    from in_upload_order_no_error [OF this] f have "file_status f \<noteq> ERROR" by force
    then show "file_status f \<in> {QUEUED, PROCESSING, DONE}" by (rule status_cases)
  }
  fix j i es st'
  assume m: "map_of (awaiting st) j = Some i" and run: "run (Settle j Failed # es) st = Some st'"
  note h = awaiting_job [OF c m]
  note f = settle_failed [OF c m]
  let ?st1 = "runQueue (leave_job j ERROR st)"
  have s: "step (Settle j Failed) st = Some ?st1" using f(1) by (simp add: step_def)
  with run have r: "run es ?st1 = Some st'" by simp
  have l: "j < length (heap ?st1)" using step_heap_length [OF c s] h(1) by simp
  have "heap st' ! j = heap ?st1 ! j"
    using run_terminal [OF reachable_step [OF assms s] r l] f(2) by simp
  then have e: "heap st' ! j = (heap st ! j)\<lparr>job_status := ERROR\<rparr>" using f(2) by simp
  show "job_status (heap st' ! j) = ERROR" by (simp add: e)
  show "file_status (files (heap st' ! j) ! i) = PROCESSING"
    using h(3,4) by (simp add: e file_pattern_def)
qed

theorem file_status_never_error_witness:
  "reachable busy_state \<and> map_of (awaiting busy_state) 0 = Some 0 \<and>
   run [Settle 0 Failed, Settle 1 (Completed ''b finished.mp4''), Request ''id-d'' (Status ''id-a'')]
     busy_state \<noteq> None \<and>
   job_status (heap (the (run [Settle 0 Failed, Settle 1 (Completed ''b finished.mp4''),
      Request ''id-d'' (Status ''id-a'')] busy_state)) ! 0) = ERROR \<and>
   file_status (files (heap (the (run [Settle 0 Failed, Settle 1 (Completed ''b finished.mp4''),
      Request ''id-d'' (Status ''id-a'')] busy_state)) ! 0) ! 0) = PROCESSING"
proof -
  let ?es = "[Settle 1 (Completed ''b finished.mp4''), Request ''id-d'' (Status ''id-a'')]"
  have n: "run (Settle 0 Failed # ?es) busy_state \<noteq> None" by code_simp
  then have r: "run (Settle 0 Failed # ?es) busy_state =
      Some (the (run (Settle 0 Failed # ?es) busy_state))" by simp
  from file_status_never_error [OF busy_state_reachable, THEN conjunct2, rule_format,
      OF busy_state_facts(3) r] busy_state_reachable busy_state_facts(3) n
  show ?thesis by simp
qed

lemma full_path_created: "p \<noteq> [] \<Longrightarrow> p \<in> set (tl (prefixes p))"
proof -
  assume "p \<noteq> []"
  have "p \<in> set (prefixes p)" by (simp add: in_set_prefixes)
  moreover have "prefixes p = [] # tl (prefixes p)" by (cases p) simp_all
  ultimately have "p \<in> set ([] # tl (prefixes p))" by simp
  with \<open>p \<noteq> []\<close> show ?thesis by simp
qed

lemma createJob_effect:
  assumes "core_inv st"
  shows "length (heap (createJob jobId st)) = Suc (length (heap st))"
    and "map_of (jobs (createJob jobId st)) jobId = Some (length (heap st))"
    and "BASE_DIR @ [jobId, ''uploads''] \<in> dirs (createJob jobId st)"
    and "BASE_DIR @ [jobId, ''outputs''] \<in> dirs (createJob jobId st)"
    and "jobs (createJob jobId st) \<noteq> jobs st"
proof -
  show "length (heap (createJob jobId st)) = Suc (length (heap st))" by simp
  show m: "map_of (jobs (createJob jobId st)) jobId = Some (length (heap st))"
    by (simp add: update_conv')
  show "BASE_DIR @ [jobId, ''uploads''] \<in> dirs (createJob jobId st)"
    using full_path_created [of "BASE_DIR @ [jobId, ''uploads'']"] by simp
  show "BASE_DIR @ [jobId, ''outputs''] \<in> dirs (createJob jobId st)"
    using full_path_created [of "BASE_DIR @ [jobId, ''outputs'']"] by simp
  show "jobs (createJob jobId st) \<noteq> jobs st"
  proof
    assume "jobs (createJob jobId st) = jobs st"
    with m have "map_of (jobs st) jobId = Some (length (heap st))" by simp
    with assms show False by (auto simp: core_inv_def inv_jobs_def)
  qed
qed

text \<open>
  C10, as the code has it. In \<^verbatim>\<open>server.js\<close> every request that reaches the job creation
  middleware, that is every request that the middleware registered before it
  (\<^verbatim>\<open>express.static\<close>, \<^verbatim>\<open>express.urlencoded\<close>) has not ended, be it an upload, a status or
  a download request, creates a new job object, enters it in the map \<^verbatim>\<open>jobs\<close> under the
  new id, creates its upload and output directories, and schedules a deletion timer.
  The map after the request differs from the map before: a status or download lookup
  does nothing else, but it is not read-only.
\<close>

theorem request_creates_job:
  fixes jobId :: string
  assumes "reachable st" and "req \<noteq> Intercepted"
  defines "st' \<equiv> handle_request jobId req st"
  shows "step (Request jobId req) st = Some st' \<and>
         length (heap st') = Suc (length (heap st)) \<and>
         map_of (jobs st') jobId = Some (length (heap st)) \<and>
         job_id (heap st' ! length (heap st)) = jobId \<and>
         uploadDir (heap st' ! length (heap st)) = BASE_DIR @ [jobId, ''uploads''] \<and>
         outputDir (heap st' ! length (heap st)) = BASE_DIR @ [jobId, ''outputs''] \<and>
         BASE_DIR @ [jobId, ''uploads''] \<in> dirs st' \<and>
         BASE_DIR @ [jobId, ''outputs''] \<in> dirs st' \<and>
         timers st' = timers st @ [(jobId, BASE_DIR @ [jobId])] \<and>
         jobs st' \<noteq> jobs st \<and>
         ((\<exists>a. req = Status a) \<or> (\<exists>a b. req = Download a b) \<longrightarrow> st' = createJob jobId st)"
proof -
  from reachable_inv [OF assms(1)] have c: "core_inv st" by simp
  note e = createJob_effect [OF c, of jobId]
  have s: "step (Request jobId req) st = Some st'" by (simp add: step_def st'_def)
  show ?thesis
  proof (cases "\<exists>fs. req = Upload fs")
    case False
    with assms(2) have "st' = createJob jobId st"
      by (cases req) (simp_all add: st'_def handle_request_def)
    with s e show ?thesis by simp
  next
    case True
    then obtain fs where u: "req = Upload fs" by blast
    let ?st2 = "update_job (length (heap (createJob jobId st)) - 1)
        (\<lambda>jb. jb\<lparr>files := files jb @ map new_file fs\<rparr>) (createJob jobId st)"
    let ?st3 = "?st2\<lparr>queue := queue ?st2 @ [length (heap (createJob jobId st)) - 1]\<rparr>"
    have c3: "core_inv ?st3" by (rule core_inv_upload [OF c])
    have st': "st' = runQueue ?st3" by (simp add: st'_def u handle_request_def Let_def)
    have l: "length (heap st) < length (heap ?st3)" by simp
    from runQueue_fields [OF c3] runQueue_identity [OF c3 l] e s u show ?thesis
      by (simp add: st')
  qed
qed

theorem request_creates_job_witness:
  "reachable busy_state \<and> Status ''id-a'' \<noteq> Intercepted \<and>
   step (Request ''id-d'' (Status ''id-a'')) busy_state =
     Some (handle_request ''id-d'' (Status ''id-a'') busy_state) \<and>
   map_of (jobs (handle_request ''id-d'' (Status ''id-a'') busy_state)) ''id-d'' = Some 3 \<and>
   job_id (heap (handle_request ''id-d'' (Status ''id-a'') busy_state) ! 3) = ''id-d'' \<and>
   [''jobs'', ''id-d'', ''uploads''] \<in> dirs (handle_request ''id-d'' (Status ''id-a'') busy_state) \<and>
   [''jobs'', ''id-d'', ''outputs''] \<in> dirs (handle_request ''id-d'' (Status ''id-a'') busy_state) \<and>
   timers (handle_request ''id-d'' (Status ''id-a'') busy_state) =
     timers busy_state @ [(''id-d'', [''jobs'', ''id-d''])] \<and>
   jobs (handle_request ''id-d'' (Status ''id-a'') busy_state) \<noteq> jobs busy_state"
proof -
  have l: "length (heap busy_state) = 3" by code_simp
  have n: "Status ''id-a'' \<noteq> Intercepted" by simp
  note t = request_creates_job [OF busy_state_reachable n, of "''id-d''",
      unfolded l BASE_DIR_def append_Cons append_Nil]
  from t busy_state_reachable n show ?thesis by blast
qed

text \<open>
  C10 as stated fails for a request that \<^verbatim>\<open>express.static\<close> answers, such as the request
  for the upload page: it never reaches the job creation middleware, and the state is
  left as it is (no job, no timer, no directory but \<^verbatim>\<open>jobs\<close>).
\<close>

theorem request_intercepted_counterexample:
  "step (Request ''id-a'' Intercepted) init = Some init \<and>
   jobs (handle_request ''id-a'' Intercepted init) = [] \<and>
   timers (handle_request ''id-a'' Intercepted init) = [] \<and>
   dirs (handle_request ''id-a'' Intercepted init) = {[''jobs'']}"
  by (simp add: step_def handle_request_def init_def ensure_def BASE_DIR_def)

end
